theory Spec2Isabelle
  imports Complex_Main "HOL-Library.AList"
begin

section \<open>Character sets\<close>

text \<open>
  The errors of the engine, one constructor per \<^verbatim>\<open>throw\<close> of \<^verbatim>\<open>nfa.ts\<close> (named after
  the message thrown), and \<open>InvalidRange\<close> and \<open>AlphabetMismatch\<close> for the two failures
  of the character-set module.
\<close>

datatype error =
    DifferentNodeLists
  | ForeignNodeList
  | EmptyCharSet
  | NotLinked
  | CannotRemoveInitial
  | NotIndexed
  | MaxCharacterMismatch
  | QuantifyRange
  | CharTooLarge
  | CharNotInteger
  | AssertionsNotSupported
  | WrongCharSetMaximum
  | InvalidRange
  | AlphabetMismatch

text \<open>
  Modelled from the spec: the module \<^verbatim>\<open>char-set.ts\<close> is imported by \<^verbatim>\<open>nfa.ts\<close> but is
  not among the sources. A \<open>CharSet\<close> is a sequence of closed integer intervals
  \<open>(min, max)\<close> together with the stored \<open>maximum\<close> of the alphabet; \<open>normalise\<close>
  establishes the normal form (non-empty intervals, sorted, disjoint, non-adjacent).
  Every character set lies within the alphabet \<open>[0, maximum]\<close>: \<open>union\<close> given a
  sequence of ranges rejects a range that is out of order (\<open>min > max\<close>) or out of the
  alphabet (\<open>min < 0\<close> or \<open>max > maximum\<close>) with invalid-range, and \<open>union\<close> given a
  \<open>CharSet\<close> accepts only one over the same \<open>maximum\<close> and rejects any other with
  alphabet-mismatch. No failure is documented for \<open>intersect\<close>.
\<close>

record CharSet =
  maximum :: int
  ranges :: "(int \<times> int) list"

fun add_range :: "int \<times> int \<Rightarrow> (int \<times> int) list \<Rightarrow> (int \<times> int) list" where
  "add_range r [] = [r]"
| "add_range (lo, hi) ((l, h) # rs) =
     (if hi + 1 < l then (lo, hi) # (l, h) # rs
      else if h + 1 < lo then (l, h) # add_range (lo, hi) rs
      else add_range (min lo l, max hi h) rs)"

definition normalise :: "(int \<times> int) list \<Rightarrow> (int \<times> int) list" where
  "normalise rs = foldr add_range (filter (\<lambda>(lo, hi). lo \<le> hi) rs) []"

definition cs_empty :: "int \<Rightarrow> CharSet" where
  "cs_empty m = \<lparr>maximum = m, ranges = []\<rparr>"

definition isEmpty :: "CharSet \<Rightarrow> bool" where
  "isEmpty cs = (ranges cs = [])"

definition has :: "CharSet \<Rightarrow> int \<Rightarrow> bool" where
  "has cs c = list_ex (\<lambda>(lo, hi). lo \<le> c \<and> c \<le> hi) (ranges cs)"

definition cs_union :: "CharSet \<Rightarrow> CharSet \<Rightarrow> error + CharSet" where
  "cs_union a b =
     (if maximum b \<noteq> maximum a then Inl AlphabetMismatch
      else Inr \<lparr>maximum = maximum a, ranges = normalise (ranges a @ ranges b)\<rparr>)"

definition union_ranges :: "CharSet \<Rightarrow> (int \<times> int) list \<Rightarrow> error + CharSet" where
  "union_ranges cs rs =
     (if list_ex (\<lambda>(lo, hi). lo < 0 \<or> lo > hi \<or> hi > maximum cs) rs then Inl InvalidRange
      else Inr \<lparr>maximum = maximum cs, ranges = normalise (ranges cs @ rs)\<rparr>)"

definition cs_intersect :: "CharSet \<Rightarrow> CharSet \<Rightarrow> CharSet" where
  "cs_intersect a b =
     \<lparr>maximum = maximum a,
      ranges = [(max l1 l2, min h1 h2). (l1, h1) \<leftarrow> ranges a, (l2, h2) \<leftarrow> ranges b,
                  max l1 l2 \<le> min h1 h2]\<rparr>"

text \<open>Membership of a code point in a sequence of ranges, for the proofs.\<close>

definition in_ranges :: "int \<Rightarrow> (int \<times> int) list \<Rightarrow> bool" where
  "in_ranges c rs = (\<exists>(lo, hi) \<in> set rs. lo \<le> c \<and> c \<le> hi)"

section \<open>Nodes, node lists and the store\<close>

text \<open>
  A node is an object with an \<open>id\<close> (the node counter of its list when it was created)
  and a reference to its \<open>list\<close>; two nodes are the same object iff both agree. A
  \<open>NodeList\<close> is referred to by its own \<open>id\<close> (the static counter of the class).
  The maps \<open>out\<close> and \<open>in\<close> of every node, and the node counter and the \<open>final\<close> set of
  every list, live in one store. A JavaScript \<open>Map\<close> is an association list in insertion
  order (\<open>AList.update\<close> replaces the value of a present key in place and appends an
  absent one), a \<open>Set\<close> a list in insertion order.
\<close>

datatype NFANode = NFANode (node_list: nat) (node_id: nat)

type_synonym adjacency = "(NFANode \<times> CharSet) list"

record heap =
  node_out :: "NFANode \<Rightarrow> adjacency"
  node_in :: "NFANode \<Rightarrow> adjacency"
  nodeCounter :: "nat \<Rightarrow> nat"
  list_final :: "nat \<Rightarrow> NFANode list"
  list_counter :: nat

definition set_add :: "'a list \<Rightarrow> 'a \<Rightarrow> 'a list" where
  "set_add xs x = (if x \<in> set xs then xs else xs @ [x])"

definition set_delete :: "'a list \<Rightarrow> 'a \<Rightarrow> 'a list" where
  "set_delete xs x = removeAll x xs"

definition list_initial :: "nat \<Rightarrow> NFANode" where
  "list_initial l = NFANode l 0"

definition empty_heap :: heap where
  "empty_heap = \<lparr>node_out = (\<lambda>_. []), node_in = (\<lambda>_. []), nodeCounter = (\<lambda>_. 0),
     list_final = (\<lambda>_. []), list_counter = 0\<rparr>"

definition createNode :: "heap \<Rightarrow> nat \<Rightarrow> heap \<times> NFANode" where
  "createNode h this =
     (h\<lparr>nodeCounter := (nodeCounter h)(this := nodeCounter h this + 1),
        node_out := (node_out h)(NFANode this (nodeCounter h this) := []),
        node_in := (node_in h)(NFANode this (nodeCounter h this) := [])\<rparr>,
      NFANode this (nodeCounter h this))"

definition new_NodeList :: "heap \<Rightarrow> heap \<times> nat" where
  "new_NodeList h =
     (let this = list_counter h;
          h1 = h\<lparr>list_counter := list_counter h + 1,
                 list_final := (list_final h)(this := []),
                 nodeCounter := (nodeCounter h)(this := 0)\<rparr>
      in (fst (createNode h1 this), this))"

definition add :: "adjacency \<Rightarrow> NFANode \<Rightarrow> CharSet \<Rightarrow> error + adjacency" where
  "add m to characters =
     (case map_of m to of
        None \<Rightarrow> Inr (AList.update to characters m)
      | Some current \<Rightarrow>
          (case cs_union current characters of
             Inl e \<Rightarrow> Inl e
           | Inr u \<Rightarrow> Inr (AList.update to u m)))"

definition linkNodes :: "heap \<Rightarrow> nat \<Rightarrow> NFANode \<Rightarrow> NFANode \<Rightarrow> CharSet \<Rightarrow> error + heap" where
  "linkNodes h this from to characters =
     (if node_list from \<noteq> node_list to then Inl DifferentNodeLists
      else if node_list from \<noteq> this then Inl ForeignNodeList
      else if isEmpty characters then Inl EmptyCharSet
      else case add (node_out h from) to characters of
             Inl e \<Rightarrow> Inl e
           | Inr out' \<Rightarrow>
               (case add (node_in h to) from characters of
                  Inl e \<Rightarrow> Inl e
                | Inr in' \<Rightarrow>
                    Inr (h\<lparr>node_out := (node_out h)(from := out'),
                           node_in := (node_in h)(to := in')\<rparr>)))"

definition unlinkNodes :: "heap \<Rightarrow> nat \<Rightarrow> NFANode \<Rightarrow> NFANode \<Rightarrow> error + heap" where
  "unlinkNodes h this from to =
     (if node_list from \<noteq> node_list to then Inl DifferentNodeLists
      else if node_list from \<noteq> this then Inl ForeignNodeList
      else if map_of (node_out h from) to = None then Inl NotLinked
      else let h1 = h\<lparr>node_out := (node_out h)(from := AList.delete to (node_out h from))\<rparr>
           in Inr (h1\<lparr>node_in := (node_in h1)(to := AList.delete from (node_in h1 to))\<rparr>))"

section \<open>The NFA facade: test\<close>

record NFAOptions =
  maxCharacter :: int

record NFA =
  nodes :: nat
  options :: NFAOptions

function match :: "heap \<Rightarrow> nat \<Rightarrow> int list \<Rightarrow> nat \<Rightarrow> NFANode \<Rightarrow> bool" where
  "match h nodes_id characters index node =
     (if index \<ge> length characters then node \<in> set (list_final h nodes_id)
      else list_ex (\<lambda>(to, chars). has chars (characters ! index) \<and>
                      match h nodes_id characters (index + 1) to) (node_out h node))"
  by pat_completeness auto
termination
  by (relation "measure (\<lambda>(h, l, characters, index, node). length characters - index)") auto

definition test :: "heap \<Rightarrow> NFA \<Rightarrow> int list \<Rightarrow> bool" where
  "test h nfa word = match h (nodes nfa) word 0 (list_initial (nodes nfa))"


text \<open>
  A path for a word: the nodes visited after each code point, every step along an edge
  whose character set has the code point.
\<close>

fun is_path :: "heap \<Rightarrow> NFANode \<Rightarrow> int list \<Rightarrow> NFANode list \<Rightarrow> bool" where
  "is_path h n [] [] = True"
| "is_path h n (c # w) (m # ns) =
     (list_ex (\<lambda>(to, chars). to = m \<and> has chars c) (node_out h n) \<and> is_path h m w ns)"
| "is_path h n w ns = False"

text \<open>
  The same procedure with the depth of the recursion bounded by \<open>fuel\<close>: \<open>match_edges\<close>
  is the loop over the outgoing edges with its early return, \<open>None\<close> means that the
  fuel ran out.
\<close>

fun match_edges :: "(NFANode \<Rightarrow> bool option) \<Rightarrow> int \<Rightarrow> adjacency \<Rightarrow> bool option" where
  "match_edges rec cp [] = Some False"
| "match_edges rec cp ((to, chars) # rest) =
     (if has chars cp
      then (case rec to of
              None \<Rightarrow> None
            | Some b \<Rightarrow> if b then Some True else match_edges rec cp rest)
      else match_edges rec cp rest)"

fun match_fuel :: "nat \<Rightarrow> heap \<Rightarrow> nat \<Rightarrow> int list \<Rightarrow> nat \<Rightarrow> NFANode \<Rightarrow> bool option" where
  "match_fuel 0 h nodes_id characters index node = None"
| "match_fuel (Suc fuel) h nodes_id characters index node =
     (if index \<ge> length characters then Some (node \<in> set (list_final h nodes_id))
      else match_edges (\<lambda>to. match_fuel fuel h nodes_id characters (index + 1) to)
             (characters ! index) (node_out h node))"

definition test_fuel :: "nat \<Rightarrow> heap \<Rightarrow> NFA \<Rightarrow> int list \<Rightarrow> bool option" where
  "test_fuel fuel h nfa word = match_fuel fuel h (nodes nfa) word 0 (list_initial (nodes nfa))"

section \<open>Loops, caches and depth-first search\<close>

text \<open>
  A \<^verbatim>\<open>for\<close> loop whose body may throw: the first error ends the loop.
\<close>

fun forEach :: "'a list \<Rightarrow> ('a \<Rightarrow> 's \<Rightarrow> error + 's) \<Rightarrow> 's \<Rightarrow> error + 's" where
  "forEach [] f s = Inr s"
| "forEach (x # xs) f s = (case f x s of Inl e \<Rightarrow> Inl e | Inr s' \<Rightarrow> forEach xs f s')"

text \<open>
  Operations that search the graph may, in the model, run forever (on a store with
  infinitely many linked nodes): they return \<open>None\<close> then, \<open>Some (Inl e)\<close> when they
  throw \<open>e\<close> and \<open>Some (Inr x)\<close> when they return \<open>x\<close>.
\<close>

definition rbind :: "(error + 'a) option \<Rightarrow> ('a \<Rightarrow> (error + 'b) option) \<Rightarrow> (error + 'b) option" where
  "rbind m f = (case m of None \<Rightarrow> None | Some (Inl e) \<Rightarrow> Some (Inl e) | Some (Inr x) \<Rightarrow> f x)"

fun forEachP :: "'a list \<Rightarrow> ('a \<Rightarrow> 's \<Rightarrow> (error + 's) option) \<Rightarrow> 's \<Rightarrow> (error + 's) option" where
  "forEachP [] f s = Some (Inr s)"
| "forEachP (x # xs) f s = rbind (f x s) (forEachP xs f)"

text \<open>
  Modelled from the spec: \<^verbatim>\<open>util.ts\<close> (\<open>DFS\<close>, \<open>cachedFunc\<close>, \<open>createIndexMap\<close>) is
  imported by \<^verbatim>\<open>nfa.ts\<close> but is not among the sources. \<open>DFS start next\<close> is a forward
  search: it calls \<open>next\<close> once on every element reachable from \<open>start\<close> through the
  elements \<open>next\<close> returns, depth first, with a stack of elements still to visit and
  the set of visited ones. The callback reads and changes the state \<open>s\<close> and may throw.
\<close>

partial_function (option) DFS_loop ::
  "('a \<Rightarrow> 's \<Rightarrow> error + ('s \<times> 'a list)) \<Rightarrow> 'a list \<Rightarrow> 'a list \<Rightarrow> 's \<Rightarrow> (error + 's) option" where
  "DFS_loop next visitStack visited s =
     (case visitStack of
        [] \<Rightarrow> Some (Inr s)
      | element # rest \<Rightarrow>
          if element \<in> set visited then DFS_loop next rest visited s
          else (case next element s of
                  Inl e \<Rightarrow> Some (Inl e)
                | Inr (s', elements) \<Rightarrow> DFS_loop next (rev elements @ rest) (element # visited) s'))"

declare DFS_loop.simps [code]

definition DFS :: "'a \<Rightarrow> ('a \<Rightarrow> 's \<Rightarrow> error + ('s \<times> 'a list)) \<Rightarrow> 's \<Rightarrow> (error + 's) option" where
  "DFS startElement next s = DFS_loop next [startElement] [] s"

text \<open>
  Modelled from the spec: \<open>cachedFunc\<close> wraps a function with a cache (a \<open>Map\<close> from
  argument to result, which the caller may seed). Every use in \<^verbatim>\<open>nfa.ts\<close> wraps
  \<^verbatim>\<open>() => nodeList.createNode()\<close>.
\<close>

definition cached_createNode ::
  "heap \<Rightarrow> nat \<Rightarrow> ('k \<times> NFANode) list \<Rightarrow> 'k \<Rightarrow> heap \<times> ('k \<times> NFANode) list \<times> NFANode" where
  "cached_createNode h nodeList cache k =
     (case map_of cache k of
        Some v \<Rightarrow> (h, cache, v)
      | None \<Rightarrow> (let (h', v) = createNode h nodeList in (h', AList.update k v cache, v)))"

section \<open>Sub-list transformers\<close>

record SubList =
  initial :: NFANode
  final :: "NFANode list"

text \<open>The node list itself, used as a sub list (\<open>initial\<close> and \<open>final\<close> of the list).\<close>

definition asSubList :: "heap \<Rightarrow> nat \<Rightarrow> SubList" where
  "asSubList h l = \<lparr>initial = list_initial l, final = list_final h l\<rparr>"

definition setFinal :: "nat \<Rightarrow> heap \<times> SubList \<Rightarrow> heap" where
  "setFinal l r = (fst r)\<lparr>list_final := (list_final (fst r))(l := final (snd r))\<rparr>"

definition baseMakeEmpty :: "heap \<Rightarrow> nat \<Rightarrow> SubList \<Rightarrow> error + (heap \<times> SubList)" where
  "baseMakeEmpty h nodeList base =
     (case forEach (map fst (node_out h (initial base)))
             (\<lambda>out h. unlinkNodes h nodeList (initial base) out) h of
        Inl e \<Rightarrow> Inl e
      | Inr h' \<Rightarrow> Inr (h', base\<lparr>final := []\<rparr>))"

text \<open>
  The two steps shared by \<open>baseReplaceWith\<close> and \<open>baseUnion\<close>: the finals of the other
  sub list are added to the finals of \<open>base\<close> (its initial node standing for the other's),
  and every edge out of the other's initial node is moved to the initial node of \<open>base\<close>.
\<close>

definition transfer_finals :: "SubList \<Rightarrow> SubList \<Rightarrow> SubList" where
  "transfer_finals base other =
     base\<lparr>final := fold (\<lambda>f acc. set_add acc (if f = initial other then initial base else f))
                      (final other) (final base)\<rparr>"

definition transfer_nodes :: "heap \<Rightarrow> nat \<Rightarrow> SubList \<Rightarrow> SubList \<Rightarrow> error + heap" where
  "transfer_nodes h nodeList base other =
     forEach (node_out h (initial other))
       (\<lambda>(to, characters) h.
          case linkNodes h nodeList (initial base) to characters of
            Inl e \<Rightarrow> Inl e
          | Inr h1 \<Rightarrow> unlinkNodes h1 nodeList (initial other) to) h"

definition baseReplaceWith :: "heap \<Rightarrow> nat \<Rightarrow> SubList \<Rightarrow> SubList \<Rightarrow> error + (heap \<times> SubList)" where
  "baseReplaceWith h nodeList base replacement =
     (case baseMakeEmpty h nodeList base of
        Inl e \<Rightarrow> Inl e
      | Inr (h1, base1) \<Rightarrow>
          (let base2 = transfer_finals base1 replacement
           in case transfer_nodes h1 nodeList base2 replacement of
                Inl e \<Rightarrow> Inl e
              | Inr h2 \<Rightarrow> Inr (h2, base2)))"

definition baseConcat :: "heap \<Rightarrow> nat \<Rightarrow> SubList \<Rightarrow> SubList \<Rightarrow> error + (heap \<times> SubList)" where
  "baseConcat h nodeList base after =
     (if final base = [] then Inr (h, base)
      else if final after = [] then baseMakeEmpty h nodeList base
      else
        let initialEdges = node_out h (initial after) in
        case forEach (final base)
               (\<lambda>baseFinal h.
                  forEach initialEdges
                    (\<lambda>(to, characters) h. linkNodes h nodeList baseFinal to characters) h) h of
          Inl e \<Rightarrow> Inl e
        | Inr h1 \<Rightarrow>
            (case forEach initialEdges
                    (\<lambda>(to, characters) h. unlinkNodes h nodeList (initial after) to) h1 of
               Inl e \<Rightarrow> Inl e
             | Inr h2 \<Rightarrow>
                 (let kept = (if initial after \<in> set (final after) then final base else [])
                  in Inr (h2, base\<lparr>final :=
                       fold (\<lambda>n acc. if n \<noteq> initial after then set_add acc n else acc)
                         (final after) kept\<rparr>))))"

definition baseOptimizationReuseFinalStates ::
  "heap \<Rightarrow> nat \<Rightarrow> SubList \<Rightarrow> error + (heap \<times> SubList)" where
  "baseOptimizationReuseFinalStates h nodeList base =
     (let reusable = filter (\<lambda>f. f \<noteq> initial base \<and> node_out h f = []) (final base) in
      if length reusable > 1 then
        (let masterFinal = last reusable in
         forEach (butlast reusable)
           (\<lambda>toRemove (h, base).
              case forEach (node_in h toRemove)
                     (\<lambda>(to, characters) h.
                        case linkNodes h nodeList to masterFinal characters of
                          Inl e \<Rightarrow> Inl e
                        | Inr h1 \<Rightarrow> unlinkNodes h1 nodeList to toRemove) h of
                Inl e \<Rightarrow> Inl e
              | Inr h' \<Rightarrow> Inr (h', base\<lparr>final := set_delete (final base) toRemove\<rparr>))
           (h, base))
      else Inr (h, base))"

definition baseUnion :: "heap \<Rightarrow> nat \<Rightarrow> SubList \<Rightarrow> SubList \<Rightarrow> error + (heap \<times> SubList)" where
  "baseUnion h nodeList base alternative =
     (let base1 = transfer_finals base alternative
      in case transfer_nodes h nodeList base1 alternative of
           Inl e \<Rightarrow> Inl e
         | Inr h1 \<Rightarrow> baseOptimizationReuseFinalStates h1 nodeList base1)"

definition basePlus :: "heap \<Rightarrow> nat \<Rightarrow> SubList \<Rightarrow> error + heap" where
  "basePlus h nodeList base =
     forEach (final base)
       (\<lambda>f h. if f \<noteq> initial base
               then forEach (node_out h (initial base))
                      (\<lambda>(to, characters) h. linkNodes h nodeList f to characters) h
               else Inr h) h"

text \<open>
  \<open>localCopy\<close>: the callback of the search translates the visited node, records it as
  final when the original is, and links the translation to the translations of the
  original's successors. Its state is the store, the cache of \<open>translate\<close> and the
  \<open>final\<close> set under construction.
\<close>

definition localCopy_visit ::
  "nat \<Rightarrow> SubList \<Rightarrow> NFANode \<Rightarrow> heap \<times> (NFANode \<times> NFANode) list \<times> NFANode list
     \<Rightarrow> error + ((heap \<times> (NFANode \<times> NFANode) list \<times> NFANode list) \<times> NFANode list)" where
  "localCopy_visit nodeList toCopy node s =
     (case s of (h, cache, fin) \<Rightarrow>
        (case cached_createNode h nodeList cache node of (h1, cache1, trans0) \<Rightarrow>
           (let fin1 = (if node \<in> set (final toCopy) then set_add fin trans0 else fin) in
            case forEach (node_out h1 node)
                   (\<lambda>(to, characters) (h, cache).
                      case cached_createNode h nodeList cache to of (h2, cache2, t) \<Rightarrow>
                        (case linkNodes h2 nodeList trans0 t characters of
                           Inl e \<Rightarrow> Inl e
                         | Inr h3 \<Rightarrow> Inr (h3, cache2)))
                   (h1, cache1) of
              Inl e \<Rightarrow> Inl e
            | Inr (h4, cache4) \<Rightarrow> Inr ((h4, cache4, fin1), map fst (node_out h4 node)))))"

definition localCopy :: "heap \<Rightarrow> nat \<Rightarrow> SubList \<Rightarrow> (error + (heap \<times> SubList)) option" where
  "localCopy h nodeList toCopy =
     (case createNode h nodeList of (h1, init) \<Rightarrow>
        rbind (DFS (initial toCopy) (localCopy_visit nodeList toCopy)
                 (h1, [(initial toCopy, init)], []))
          (\<lambda>(h2, cache, fin). Some (Inr (h2, \<lparr>initial = init, final = fin\<rparr>))))"

text \<open>
  The loop \<^verbatim>\<open>for (let i = times; i > 2; i--)\<close> of \<open>baseRepeat\<close>, run \<open>times - 2\<close>
  times: each round concatenates \<open>base\<close> with a fresh copy of \<open>copy\<close>; in the branch
  where the initial node is final, the finals of \<open>base\<close> after each round are added to
  \<open>realFinal\<close>.
\<close>

fun repeat_loop ::
  "nat \<Rightarrow> nat \<Rightarrow> SubList \<Rightarrow> heap \<times> SubList \<times> NFANode list
     \<Rightarrow> (error + (heap \<times> SubList \<times> NFANode list)) option" where
  "repeat_loop 0 nodeList copy s = Some (Inr s)"
| "repeat_loop (Suc k) nodeList copy s =
     (case s of (h, base, realFinal) \<Rightarrow>
        rbind (localCopy h nodeList copy)
          (\<lambda>(h1, c).
             case baseConcat h1 nodeList base c of
               Inl e \<Rightarrow> Some (Inl e)
             | Inr (h2, base2) \<Rightarrow>
                 repeat_loop k nodeList copy (h2, base2, fold (\<lambda>f acc. set_add acc f) (final base2) realFinal)))"

definition baseRepeat :: "heap \<Rightarrow> nat \<Rightarrow> SubList \<Rightarrow> nat \<Rightarrow> (error + (heap \<times> SubList)) option" where
  "baseRepeat h nodeList base n =
     (if n = 0 then
        (case baseMakeEmpty h nodeList base of
           Inl e \<Rightarrow> Some (Inl e)
         | Inr (h1, base1) \<Rightarrow> Some (Inr (h1, base1\<lparr>final := set_add (final base1) (initial base1)\<rparr>)))
      else if n = 1 then Some (Inr (h, base))
      else if length (final base) = 1 \<and> initial base \<in> set (final base) then Some (Inr (h, base))
      else if length (final base) = 0 then Some (Inr (h, base))
      else if initial base \<notin> set (final base) then
        rbind (localCopy h nodeList base)
          (\<lambda>(h1, copy).
             rbind (repeat_loop (n - 2) nodeList copy (h1, base, []))
               (\<lambda>(h2, base2, realFinal). Some (baseConcat h2 nodeList base2 copy)))
      else
        (let realFinal = final base;
             base0 = base\<lparr>final := set_delete (final base) (initial base)\<rparr>
         in rbind (localCopy h nodeList base0)
              (\<lambda>(h1, copy).
                 rbind (repeat_loop (n - 2) nodeList copy (h1, base0, realFinal))
                   (\<lambda>(h2, base2, realFinal2).
                      case baseConcat h2 nodeList base2 copy of
                        Inl e \<Rightarrow> Some (Inl e)
                      | Inr (h3, base3) \<Rightarrow>
                          Some (Inr (h3, base3\<lparr>final :=
                            fold (\<lambda>f acc. set_add acc f) (final base3) realFinal2\<rparr>))))))"

text \<open>\<open>max = None\<close> stands for \<^verbatim>\<open>Infinity\<close>.\<close>

definition baseQuantify ::
  "heap \<Rightarrow> nat \<Rightarrow> SubList \<Rightarrow> nat \<Rightarrow> nat option \<Rightarrow> (error + (heap \<times> SubList)) option" where
  "baseQuantify h nodeList base min0 max0 =
     (if max0 = Some 0 then
        (case baseMakeEmpty h nodeList base of
           Inl e \<Rightarrow> Some (Inl e)
         | Inr (h1, base1) \<Rightarrow> Some (Inr (h1, base1\<lparr>final := set_add (final base1) (initial base1)\<rparr>)))
      else
        (let min1 = (if initial base \<in> set (final base) then 0 else min0);
             base1 = (if initial base \<notin> set (final base) \<and> min0 = 0
                      then base\<lparr>final := set_add (final base) (initial base)\<rparr> else base)
         in if max0 = Some 1 then Some (Inr (h, base1))
            else if Some min1 = max0 then baseRepeat h nodeList base1 min1
            else (case max0 of
                    Some mx \<Rightarrow>
                      rbind (localCopy h nodeList base1)
                        (\<lambda>(h1, copy).
                           rbind (baseRepeat h1 nodeList
                                    (copy\<lparr>final := set_add (final copy) (initial copy)\<rparr>) (mx - min1))
                             (\<lambda>(h2, copy2).
                                rbind (baseRepeat h2 nodeList base1 min1)
                                  (\<lambda>(h3, base3). Some (baseConcat h3 nodeList base3 copy2))))
                  | None \<Rightarrow>
                      if min1 > 1 then
                        rbind (localCopy h nodeList base1)
                          (\<lambda>(h1, copy).
                             case basePlus h1 nodeList copy of
                               Inl e \<Rightarrow> Some (Inl e)
                             | Inr h2 \<Rightarrow>
                                 rbind (baseRepeat h2 nodeList base1 (min1 - 1))
                                   (\<lambda>(h3, base3). Some (baseConcat h3 nodeList base3 copy)))
                      else (case basePlus h nodeList base1 of
                              Inl e \<Rightarrow> Some (Inl e)
                            | Inr h1 \<Rightarrow> Some (Inr (h1, base1))))))"


section \<open>Pruning: removeUnreachable\<close>

definition makeEmpty :: "heap \<Rightarrow> nat \<Rightarrow> heap" where
  "makeEmpty h this =
     h\<lparr>list_final := (list_final h)(this := []),
       node_in := (node_in h)(list_initial this := []),
       node_out := (node_out h)(list_initial this := [])\<rparr>"

definition removeNode :: "heap \<Rightarrow> nat \<Rightarrow> NFANode \<Rightarrow> error + heap" where
  "removeNode h this node =
     (if node = list_initial this then Inl CannotRemoveInitial
      else
        let h0 = h\<lparr>list_final := (list_final h)(this := set_delete (list_final h this) node)\<rparr> in
        case forEach (map fst (node_out h0 node))
               (\<lambda>outgoing h. unlinkNodes h this node outgoing) h0 of
          Inl e \<Rightarrow> Inl e
        | Inr h1 \<Rightarrow>
            forEach (map fst (node_in h1 node))
              (\<lambda>incoming h. unlinkNodes h this incoming node) h1)"

definition removeUnreachable :: "heap \<Rightarrow> nat \<Rightarrow> (error + heap) option" where
  "removeUnreachable h this =
     (if length (list_final h this) = 0 then Some (Inr (makeEmpty h this))
      else
        rbind (DFS (list_initial this)
                 (\<lambda>node allNodes.
                    Inr (set_add allNodes node, map fst (node_in h node) @ map fst (node_out h node)))
                 (list_final h this))
          (\<lambda>allNodes.
             rbind (DFS (list_initial this)
                      (\<lambda>node reachable. Inr (set_add reachable node, map fst (node_out h node)))
                      [])
               (\<lambda>reachableFromInitial.
                  case forEach allNodes
                         (\<lambda>node h. if node \<notin> set reachableFromInitial
                                    then removeNode h this node else Inr h) h of
                    Inl e \<Rightarrow> Some (Inl e)
                  | Inr h1 \<Rightarrow>
                      if length (list_final h1 this) = 0 then Some (Inr (makeEmpty h1 this))
                      else
                        rbind (forEachP (list_final h1 this)
                                 (\<lambda>fin canReachFinal.
                                    DFS fin
                                      (\<lambda>node canReachFinal.
                                         if node \<in> set canReachFinal then Inr (canReachFinal, [])
                                         else Inr (set_add canReachFinal node, map fst (node_in h1 node)))
                                      canReachFinal)
                                 [])
                          (\<lambda>canReachFinal.
                             Some (forEach reachableFromInitial
                                     (\<lambda>node h. if node \<notin> set canReachFinal
                                                then removeNode h this node else Inr h) h1)))))"

section \<open>The NFA facade: construction and combination\<close>

text \<open>
  The iterator of a node list yields the nodes reachable from the initial node level by
  level; the model returns them as the list in which they are yielded.
\<close>

definition iterate_level :: "heap \<Rightarrow> NFANode list \<Rightarrow> NFANode list \<Rightarrow> NFANode list \<times> NFANode list" where
  "iterate_level h toVisit visited =
     fold (\<lambda>node (visited, newVisit).
             if node \<notin> set visited
             then (visited @ [node], newVisit @ map fst (node_out h node))
             else (visited, newVisit))
       toVisit (visited, [])"

partial_function (option) iterate_loop :: "heap \<Rightarrow> NFANode list \<Rightarrow> NFANode list \<Rightarrow> NFANode list option" where
  "iterate_loop h toVisit visited =
     (if length toVisit > 0
      then (case iterate_level h toVisit visited of
              (visited', newVisit) \<Rightarrow> iterate_loop h newVisit visited')
      else Some visited)"

declare iterate_loop.simps [code]

definition iterate :: "heap \<Rightarrow> nat \<Rightarrow> (error + NFANode list) option" where
  "iterate h this = map_option Inr (iterate_loop h [list_initial this] [])"

text \<open>
  Modelled from the spec: \<open>createIndexMap\<close> (of \<^verbatim>\<open>util.ts\<close>) assigns to every element of an
  iteration its index in the order of the iteration.
\<close>

definition createIndexMap :: "'a list \<Rightarrow> ('a \<times> nat) list" where
  "createIndexMap xs = zip xs [0..<length xs]"

definition checkOptionsCompatibility :: "NFAOptions \<Rightarrow> NFAOptions \<Rightarrow> error + unit" where
  "checkOptionsCompatibility thisOptions otherOptions =
     (if maxCharacter thisOptions \<noteq> maxCharacter otherOptions then Inl MaxCharacterMismatch
      else Inr ())"

definition NFA_union :: "heap \<Rightarrow> NFA \<Rightarrow> NFA \<Rightarrow> (error + heap) option" where
  "NFA_union h this nfa =
     (if nodes nfa = nodes this then Some (Inr h)
      else case checkOptionsCompatibility (options this) (options nfa) of
             Inl e \<Rightarrow> Some (Inl e)
           | Inr _ \<Rightarrow>
               rbind (localCopy h (nodes this) (asSubList h (nodes nfa)))
                 (\<lambda>(h1, alternative).
                    case baseUnion h1 (nodes this) (asSubList h1 (nodes this)) alternative of
                      Inl e \<Rightarrow> Some (Inl e)
                    | Inr r \<Rightarrow> Some (Inr (setFinal (nodes this) r))))"

text \<open>
  \<open>quantify\<close> takes JavaScript numbers: \<open>min\<close> a real, \<open>max\<close> a real or \<^verbatim>\<open>Infinity\<close>
  (\<open>None\<close>).
\<close>

definition isInteger :: "real \<Rightarrow> bool" where
  "isInteger x = (of_int \<lfloor>x\<rfloor> = x)"

definition quantify :: "heap \<Rightarrow> NFA \<Rightarrow> real \<Rightarrow> real option \<Rightarrow> (error + heap) option" where
  "quantify h this min0 max0 =
     (if \<not> isInteger min0 \<or> (case max0 of Some m \<Rightarrow> \<not> isInteger m | None \<Rightarrow> False) \<or> min0 < 0
         \<or> (case max0 of Some m \<Rightarrow> min0 > m | None \<Rightarrow> False)
      then Some (Inl QuantifyRange)
      else rbind (baseQuantify h (nodes this) (asSubList h (nodes this))
                    (nat \<lfloor>min0\<rfloor>) (map_option (\<lambda>m. nat \<lfloor>m\<rfloor>) max0))
             (\<lambda>r. Some (Inr (setFinal (nodes this) r))))"

definition NFA_concat :: "heap \<Rightarrow> NFA \<Rightarrow> NFA \<Rightarrow> (error + heap) option" where
  "NFA_concat h this nfa =
     (if nodes this = nodes nfa then quantify h this 2 (Some 2)
      else case checkOptionsCompatibility (options this) (options nfa) of
             Inl e \<Rightarrow> Some (Inl e)
           | Inr _ \<Rightarrow>
               (case baseConcat h (nodes this) (asSubList h (nodes this)) (asSubList h (nodes nfa)) of
                  Inl e \<Rightarrow> Some (Inl e)
                | Inr r \<Rightarrow> Some (Inr (setFinal (nodes this) r))))"

definition NFA_copy :: "heap \<Rightarrow> NFA \<Rightarrow> (error + (heap \<times> NFA)) option" where
  "NFA_copy h this =
     (case new_NodeList h of (h1, l) \<Rightarrow>
        (let copy = \<lparr>nodes = l, options = options this\<rparr>
         in rbind (NFA_union h1 copy this) (\<lambda>h2. Some (Inr (h2, copy)))))"

text \<open>
  \<open>fromWords\<close> takes the code points as JavaScript numbers (reals); \<open>getNext\<close> compares
  with \<open>maxCharacter\<close> and tests for an integer, after which the code point is the
  integer \<open>\<lfloor>char\<rfloor>\<close>.
\<close>

definition getNext :: "NFAOptions \<Rightarrow> nat \<Rightarrow> heap \<Rightarrow> NFANode \<Rightarrow> real \<Rightarrow> error + (heap \<times> NFANode)" where
  "getNext opts nodeList h node char =
     (if char > real_of_int (maxCharacter opts) then Inl CharTooLarge
      else if \<not> isInteger char then Inl CharNotInteger
      else case find (\<lambda>(to, chars). has chars \<lfloor>char\<rfloor>) (node_out h node) of
             Some (to, chars) \<Rightarrow> Inr (h, to)
           | None \<Rightarrow>
               (case createNode h nodeList of (h1, newNode) \<Rightarrow>
                  (case union_ranges (cs_empty (maxCharacter opts)) [(\<lfloor>char\<rfloor>, \<lfloor>char\<rfloor>)] of
                     Inl e \<Rightarrow> Inl e
                   | Inr charSet \<Rightarrow>
                       (case linkNodes h1 nodeList node newNode charSet of
                          Inl e \<Rightarrow> Inl e
                        | Inr h2 \<Rightarrow> Inr (h2, newNode)))))"

definition add_word :: "NFAOptions \<Rightarrow> nat \<Rightarrow> real list \<Rightarrow> heap \<Rightarrow> error + heap" where
  "add_word opts nodeList word h =
     (case forEach word
             (\<lambda>charCode (h, node). getNext opts nodeList h node charCode)
             (h, list_initial nodeList) of
        Inl e \<Rightarrow> Inl e
      | Inr (h1, node) \<Rightarrow>
          Inr (h1\<lparr>list_final := (list_final h1)(nodeList := set_add (list_final h1 nodeList) node)\<rparr>))"

definition fromWords :: "heap \<Rightarrow> real list list \<Rightarrow> NFAOptions \<Rightarrow> error + (heap \<times> NFA)" where
  "fromWords h words opts =
     (case new_NodeList h of (h0, nodeList) \<Rightarrow>
        (case forEach words (add_word opts nodeList) h0 of
           Inl e \<Rightarrow> Inl e
         | Inr h1 \<Rightarrow>
             (case baseOptimizationReuseFinalStates h1 nodeList (asSubList h1 nodeList) of
                Inl e \<Rightarrow> Inl e
              | Inr r \<Rightarrow> Inr (setFinal nodeList r, \<lparr>nodes = nodeList, options = opts\<rparr>))))"

subsection \<open>Intersection\<close>

definition translate ::
  "nat \<Rightarrow> (NFANode \<times> nat) list \<Rightarrow> (NFANode \<times> nat) list \<Rightarrow> heap \<times> (nat \<times> NFANode) list
     \<Rightarrow> NFANode \<Rightarrow> NFANode \<Rightarrow> error + ((heap \<times> (nat \<times> NFANode) list) \<times> NFANode)" where
  "translate nodeList thisIndexMap otherIndexMap s thisNode otherNode =
     (case (map_of thisIndexMap thisNode, map_of otherIndexMap otherNode) of
        (Some thisIndex, Some otherIndex) \<Rightarrow>
          (case cached_createNode (fst s) nodeList (snd s)
                  (thisIndex * length otherIndexMap + otherIndex) of
             (h', cache', n) \<Rightarrow> Inr ((h', cache'), n))
      | _ \<Rightarrow> Inl NotIndexed)"

definition intersect_finals ::
  "nat \<Rightarrow> (NFANode \<times> nat) list \<Rightarrow> (NFANode \<times> nat) list \<Rightarrow> NFANode list \<Rightarrow> NFANode list
     \<Rightarrow> heap \<times> (nat \<times> NFANode) list \<Rightarrow> error + (heap \<times> (nat \<times> NFANode) list)" where
  "intersect_finals nodeList thisIndexMap otherIndexMap leftFinal rightFinal s =
     forEach leftFinal
       (\<lambda>thisFinal s.
          forEach rightFinal
            (\<lambda>otherFinal s.
               case translate nodeList thisIndexMap otherIndexMap s thisFinal otherFinal of
                 Inl e \<Rightarrow> Inl e
               | Inr ((h, cache), n) \<Rightarrow>
                   Inr (h\<lparr>list_final := (list_final h)(nodeList := set_add (list_final h nodeList) n)\<rparr>,
                        cache)) s) s"

definition intersect_edges ::
  "nat \<Rightarrow> (NFANode \<times> nat) list \<Rightarrow> (NFANode \<times> nat) list \<Rightarrow> NFANode list \<Rightarrow> NFANode list
     \<Rightarrow> heap \<times> (nat \<times> NFANode) list \<Rightarrow> error + (heap \<times> (nat \<times> NFANode) list)" where
  "intersect_edges nodeList thisIndexMap otherIndexMap leftNodes rightNodes s =
     forEach leftNodes
       (\<lambda>thisNode s.
          forEach rightNodes
            (\<lambda>otherNode s.
               case translate nodeList thisIndexMap otherIndexMap s thisNode otherNode of
                 Inl e \<Rightarrow> Inl e
               | Inr (s1, from) \<Rightarrow>
                   forEach (node_out (fst s1) thisNode)
                     (\<lambda>(thisTo, thisTransition) s.
                        forEach (node_out (fst s) otherNode)
                          (\<lambda>(otherTo, otherTransition) s.
                             let transition = cs_intersect thisTransition otherTransition in
                             if \<not> isEmpty transition then
                               (case translate nodeList thisIndexMap otherIndexMap s thisTo otherTo of
                                  Inl e \<Rightarrow> Inl e
                                | Inr ((h, cache), to) \<Rightarrow>
                                    (case linkNodes h nodeList from to transition of
                                       Inl e \<Rightarrow> Inl e
                                     | Inr h' \<Rightarrow> Inr (h', cache)))
                             else Inr s) s) s1) s) s"

definition intersect :: "heap \<Rightarrow> NFA \<Rightarrow> NFA \<Rightarrow> (error + (heap \<times> NFA)) option" where
  "intersect h left right =
     (case checkOptionsCompatibility (options left) (options right) of
        Inl e \<Rightarrow> Some (Inl e)
      | Inr _ \<Rightarrow>
          (case new_NodeList h of (h0, nodeList) \<Rightarrow>
             rbind (iterate h0 (nodes left))
               (\<lambda>leftNodes.
                  rbind (iterate h0 (nodes right))
                    (\<lambda>rightNodes.
                       let thisIndexMap = createIndexMap leftNodes;
                           otherIndexMap = createIndexMap rightNodes
                       in case intersect_finals nodeList thisIndexMap otherIndexMap
                                 (list_final h0 (nodes left)) (list_final h0 (nodes right))
                                 (h0, [(0, list_initial nodeList)]) of
                            Inl e \<Rightarrow> Some (Inl e)
                          | Inr s1 \<Rightarrow>
                              (case intersect_edges nodeList thisIndexMap otherIndexMap
                                      leftNodes rightNodes s1 of
                                 Inl e \<Rightarrow> Some (Inl e)
                               | Inr (h2, cache) \<Rightarrow>
                                   rbind (removeUnreachable h2 nodeList)
                                     (\<lambda>h3.
                                        case baseOptimizationReuseFinalStates h3 nodeList
                                               (asSubList h3 nodeList) of
                                          Inl e \<Rightarrow> Some (Inl e)
                                        | Inr r \<Rightarrow>
                                            Some (Inr (setFinal nodeList r,
                                                       \<lparr>nodes = nodeList, options = options left\<rparr>))))))))"


subsection \<open>Compiling a regular expression\<close>

text \<open>
  The regex AST (\<^verbatim>\<open>ast.ts\<close>, the inbound contract of the compiler): a concatenation
  is a sequence of elements, an element an alternation, an assertion, a character class
  or a quantifier (its \<open>max\<close> is \<open>None\<close> for \<^verbatim>\<open>Infinity\<close>). The loops over the
  alternatives after the first and over the elements of a concatenation are
  \<open>handleAlternation_loop\<close> and \<open>handleElements\<close>.
\<close>

datatype Element =
    Alternation "Concatenation list"
  | Assertion "Concatenation list"
  | CharacterClass CharSet
  | Quantifier "Concatenation list" nat "nat option"
and Concatenation = Concatenation "Element list"

fun handleAlternation :: "NFAOptions \<Rightarrow> nat \<Rightarrow> Concatenation list \<Rightarrow> heap \<Rightarrow> (error + (heap \<times> SubList)) option"
and handleAlternation_loop :: "NFAOptions \<Rightarrow> nat \<Rightarrow> Concatenation list \<Rightarrow> heap \<times> SubList \<Rightarrow> (error + (heap \<times> SubList)) option"
and handleConcatenation :: "NFAOptions \<Rightarrow> nat \<Rightarrow> Concatenation \<Rightarrow> heap \<Rightarrow> (error + (heap \<times> SubList)) option"
and handleElements :: "NFAOptions \<Rightarrow> nat \<Rightarrow> Element list \<Rightarrow> heap \<times> SubList \<Rightarrow> (error + (heap \<times> SubList)) option"
and handleElement :: "NFAOptions \<Rightarrow> nat \<Rightarrow> Element \<Rightarrow> heap \<times> SubList \<Rightarrow> (error + (heap \<times> SubList)) option"
where
  "handleAlternation opts nodeList [] h =
     (case createNode h nodeList of (h1, n) \<Rightarrow> Some (Inr (h1, \<lparr>initial = n, final = []\<rparr>)))"
| "handleAlternation opts nodeList (c # cs) h =
     rbind (handleConcatenation opts nodeList c h) (handleAlternation_loop opts nodeList cs)"
| "handleAlternation_loop opts nodeList [] s = Some (Inr s)"
| "handleAlternation_loop opts nodeList (c # cs) s =
     rbind (handleConcatenation opts nodeList c (fst s))
       (\<lambda>(h1, alternative).
          case baseUnion h1 nodeList (snd s) alternative of
            Inl e \<Rightarrow> Some (Inl e)
          | Inr s' \<Rightarrow> handleAlternation_loop opts nodeList cs s')"
| "handleConcatenation opts nodeList (Concatenation elements) h =
     (case createNode h nodeList of (h1, n) \<Rightarrow>
        handleElements opts nodeList elements (h1, \<lparr>initial = n, final = [n]\<rparr>))"
| "handleElements opts nodeList [] s = Some (Inr s)"
| "handleElements opts nodeList (e # es) s =
     (if length (final (snd s)) = 0 then Some (Inr s)
      else rbind (handleElement opts nodeList e s) (handleElements opts nodeList es))"
| "handleElement opts nodeList (Alternation alternatives) s =
     rbind (handleAlternation opts nodeList alternatives (fst s))
       (\<lambda>(h1, sub). Some (baseConcat h1 nodeList (snd s) sub))"
| "handleElement opts nodeList (Assertion alternatives) s = Some (Inl AssertionsNotSupported)"
| "handleElement opts nodeList (CharacterClass chars) s =
     (if maximum chars \<noteq> maxCharacter opts then Some (Inl WrongCharSetMaximum)
      else if isEmpty chars then Some (baseMakeEmpty (fst s) nodeList (snd s))
      else case createNode (fst s) nodeList of (h1, n) \<Rightarrow>
             (case forEach (final (snd s)) (\<lambda>f h. linkNodes h nodeList f n chars) h1 of
                Inl e \<Rightarrow> Some (Inl e)
              | Inr h2 \<Rightarrow> Some (Inr (h2, (snd s)\<lparr>final := [n]\<rparr>))))"
| "handleElement opts nodeList (Quantifier alternatives min0 max0) s =
     rbind (rbind (handleAlternation opts nodeList alternatives (fst s))
              (\<lambda>(h1, base). baseQuantify h1 nodeList base min0 max0))
       (\<lambda>(h2, sub). Some (baseConcat h2 nodeList (snd s) sub))"


definition createNodeList :: "heap \<Rightarrow> Concatenation list \<Rightarrow> NFAOptions \<Rightarrow> (error + (heap \<times> nat)) option" where
  "createNodeList h expression opts =
     (case new_NodeList h of (h0, nodeList) \<Rightarrow>
        rbind (handleAlternation opts nodeList expression h0)
          (\<lambda>(h1, replacement).
             case baseReplaceWith h1 nodeList (asSubList h1 nodeList) replacement of
               Inl e \<Rightarrow> Some (Inl e)
             | Inr r \<Rightarrow> Some (Inr (setFinal nodeList r, nodeList))))"

datatype regex_input =
    FromAlternatives "Concatenation list"
  | FromConcatenation Concatenation
  | FromExpression "Concatenation list"

definition fromRegex :: "heap \<Rightarrow> regex_input \<Rightarrow> NFAOptions \<Rightarrow> (error + (heap \<times> NFA)) option" where
  "fromRegex h v opts =
     rbind (case v of
              FromAlternatives alternatives \<Rightarrow> createNodeList h alternatives opts
            | FromConcatenation node \<Rightarrow> createNodeList h [node] opts
            | FromExpression alternatives \<Rightarrow> createNodeList h alternatives opts)
       (\<lambda>(h1, nodeList). Some (Inr (h1, \<lparr>nodes = nodeList, options = opts\<rparr>)))"

subsection \<open>Conversion from a DFA\<close>

text \<open>
  Modelled from the spec: \<^verbatim>\<open>dfa.ts\<close> and \<open>invertCharMap\<close> of \<^verbatim>\<open>char-util.ts\<close> are
  imported by \<^verbatim>\<open>nfa.ts\<close> but are not among the sources. A DFA names its initial node,
  gives every node its outgoing transition map (from code-point range to target node)
  and carries \<open>maxCharacter\<close>; \<open>invertCharMap\<close> inverts a transition map into the map
  from target node to the character set accumulated from the ranges that lead there.
\<close>

type_synonym DFANode = nat

record DFA =
  dfa_initial :: DFANode
  dfa_out :: "DFANode \<Rightarrow> ((int \<times> int) \<times> DFANode) list"
  dfa_maxCharacter :: int

definition invertCharMap ::
  "((int \<times> int) \<times> DFANode) list \<Rightarrow> int \<Rightarrow> error + (DFANode \<times> CharSet) list" where
  "invertCharMap charMap maximum0 =
     forEach charMap
       (\<lambda>(range, node) byNode.
          case union_ranges (case map_of byNode node of None \<Rightarrow> cs_empty maximum0 | Some cs \<Rightarrow> cs)
                 [range] of
            Inl e \<Rightarrow> Inl e
          | Inr cs \<Rightarrow> Inr (AList.update node cs byNode)) []"

definition fromDFA_visit ::
  "DFA \<Rightarrow> nat \<Rightarrow> DFANode \<Rightarrow> heap \<times> (DFANode \<times> NFANode) list
     \<Rightarrow> error + ((heap \<times> (DFANode \<times> NFANode) list) \<times> DFANode list)" where
  "fromDFA_visit dfa nodeList dfaNode s =
     (case s of (h, cache) \<Rightarrow>
        (case cached_createNode h nodeList cache dfaNode of (h1, cache1, transNode) \<Rightarrow>
           (case invertCharMap (dfa_out dfa dfaNode) (dfa_maxCharacter dfa) of
              Inl e \<Rightarrow> Inl e
            | Inr byNode \<Rightarrow>
                (case forEach byNode
                        (\<lambda>(outDfaNode, charSet) (h, cache).
                           case cached_createNode h nodeList cache outDfaNode of (h2, cache2, t) \<Rightarrow>
                             (case linkNodes h2 nodeList transNode t charSet of
                                Inl e \<Rightarrow> Inl e
                              | Inr h3 \<Rightarrow> Inr (h3, cache2)))
                        (h1, cache1) of
                   Inl e \<Rightarrow> Inl e
                 | Inr s' \<Rightarrow> Inr (s', map fst byNode)))))"

definition fromDFA :: "heap \<Rightarrow> DFA \<Rightarrow> (error + (heap \<times> NFA)) option" where
  "fromDFA h dfa =
     (case new_NodeList h of (h0, nodeList) \<Rightarrow>
        rbind (DFS (dfa_initial dfa) (fromDFA_visit dfa nodeList)
                 (h0, [(dfa_initial dfa, list_initial nodeList)]))
          (\<lambda>(h1, cache).
             Some (Inr (h1, \<lparr>nodes = nodeList,
                              options = \<lparr>maxCharacter = dfa_maxCharacter dfa\<rparr>\<rparr>))))"

section \<open>An example store\<close>

text \<open>
  The trie of the single word \<open>ab\<close> over the 16-bit alphabet, as \<open>fromWords\<close> builds it:
  node list \<open>0\<close> with the nodes \<open>0 \<rightarrow> 1 \<rightarrow> 2\<close>, the last one final.
\<close>

definition example_opts :: NFAOptions where
  "example_opts = \<lparr>maxCharacter = 65535\<rparr>"

definition single :: "int \<Rightarrow> CharSet" where
  "single c = \<lparr>maximum = 65535, ranges = [(c, c)]\<rparr>"

definition trie_ab :: heap where
  "trie_ab =
     \<lparr>node_out = (\<lambda>_. [])(NFANode 0 0 := [(NFANode 0 1, single 97)],
                            NFANode 0 1 := [(NFANode 0 2, single 98)]),
      node_in = (\<lambda>_. [])(NFANode 0 1 := [(NFANode 0 0, single 97)],
                           NFANode 0 2 := [(NFANode 0 1, single 98)]),
      nodeCounter = (\<lambda>_. 0)(0 := 3),
      list_final = (\<lambda>_. [])(0 := [NFANode 0 2]),
      list_counter = 1\<rparr>"

definition nfa_ab :: NFA where
  "nfa_ab = \<lparr>nodes = 0, options = example_opts\<rparr>"

text \<open>A DFA for \<open>a*\<close>: one node, with a transition on \<open>a\<close> to itself.\<close>

definition dfa_a_star :: DFA where
  "dfa_a_star = \<lparr>dfa_initial = 0, dfa_out = (\<lambda>_. [])(0 := [((97, 97), 0)]),
     dfa_maxCharacter = 65535\<rparr>"

section \<open>Properties of character sets\<close>

lemma has_in_ranges: "has cs c = in_ranges c (ranges cs)"
  by (simp add: has_def in_ranges_def list_ex_iff)

lemma add_range_valid:
  "lo \<le> hi \<Longrightarrow> \<forall>(l, h) \<in> set rs. l \<le> h \<Longrightarrow> \<forall>(l, h) \<in> set (add_range (lo, hi) rs). l \<le> h"
  by (induction "(lo, hi)" rs arbitrary: lo hi rule: add_range.induct) auto

lemma in_ranges_Cons: "in_ranges c ((lo, hi) # rs) \<longleftrightarrow> (lo \<le> c \<and> c \<le> hi) \<or> in_ranges c rs"
  by (simp add: in_ranges_def)

lemma merge_ranges:
  "\<not> hi + 1 < l \<Longrightarrow> \<not> h + 1 < lo \<Longrightarrow> l \<le> h \<Longrightarrow> lo \<le> hi \<Longrightarrow>
     (min lo l \<le> c \<and> c \<le> max hi h) \<longleftrightarrow> (lo \<le> c \<and> c \<le> hi) \<or> (l \<le> c \<and> c \<le> (h::int))"
  by (auto simp: min_def max_def)

lemma in_ranges_add_range:
  "lo \<le> hi \<Longrightarrow> \<forall>(l, h) \<in> set rs. l \<le> h \<Longrightarrow>
     in_ranges c (add_range (lo, hi) rs) \<longleftrightarrow> (lo \<le> c \<and> c \<le> hi) \<or> in_ranges c rs"
proof (induction "(lo, hi)" rs arbitrary: lo hi rule: add_range.induct)
  case (1 lo hi)
  then show ?case by (simp add: in_ranges_def)
next
  case (2 lo hi l h rs)
  from "2.prems" have lh: "l \<le> h" and rs: "\<forall>(l, h) \<in> set rs. l \<le> h" by auto
  show ?case
  proof (cases "hi + 1 < l")
    case True
    then show ?thesis by (simp add: in_ranges_Cons)
  next
    case F1: False
    show ?thesis
    proof (cases "h + 1 < lo")
      case True
      have "in_ranges c (add_range (lo, hi) rs) \<longleftrightarrow> (lo \<le> c \<and> c \<le> hi) \<or> in_ranges c rs"
        by (rule "2.hyps"(1)[OF F1 True "2.prems"(1) rs])
      with F1 True show ?thesis by (simp add: in_ranges_Cons) blast
    next
      case F2: False
      have "min lo l \<le> max hi h" using "2.prems"(1) by auto
      then have "in_ranges c (add_range (min lo l, max hi h) rs) \<longleftrightarrow>
          (min lo l \<le> c \<and> c \<le> max hi h) \<or> in_ranges c rs"
        by (rule "2.hyps"(2)[OF F1 F2 _ rs])
      with F1 F2 show ?thesis
        by (simp add: in_ranges_Cons merge_ranges[OF F1 F2 lh "2.prems"(1)])
    qed
  qed
qed

lemma normalise_Cons:
  "normalise ((lo, hi) # rs) = (if lo \<le> hi then add_range (lo, hi) (normalise rs) else normalise rs)"
  by (simp add: normalise_def)

lemma normalise_valid: "\<forall>(l, h) \<in> set (normalise rs). l \<le> h"
proof (induction rs)
  case Nil
  then show ?case by (simp add: normalise_def)
next
  case (Cons r rs)
  obtain lo hi where r: "r = (lo, hi)" by (cases r)
  show ?case
  proof (cases "lo \<le> hi")
    case True
    from add_range_valid[OF True Cons] show ?thesis unfolding r normalise_Cons using True by simp
  next
    case False
    with Cons show ?thesis unfolding r normalise_Cons by simp
  qed
qed

lemma in_ranges_normalise: "in_ranges c (normalise rs) \<longleftrightarrow> in_ranges c rs"
proof (induction rs)
  case Nil
  then show ?case by (simp add: normalise_def)
next
  case (Cons r rs)
  obtain lo hi where r: "r = (lo, hi)" by (cases r)
  show ?case
  proof (cases "lo \<le> hi")
    case True
    then show ?thesis unfolding r normalise_Cons in_ranges_Cons
      using in_ranges_add_range[OF True normalise_valid, of c rs] Cons by simp
  next
    case False
    then show ?thesis unfolding r normalise_Cons in_ranges_Cons using Cons by auto
  qed
qed

lemma in_ranges_Nil: "\<not> in_ranges c []"
  by (simp add: in_ranges_def)

lemma in_ranges_append: "in_ranges c (xs @ ys) \<longleftrightarrow> in_ranges c xs \<or> in_ranges c ys"
  by (auto simp: in_ranges_def)

lemma in_ranges_intersect_one:
  "in_ranges c (concat (map (\<lambda>(l2, h2). if max l1 l2 \<le> min h1 h2 then [(max l1 l2, min h1 h2)] else []) rs))
     \<longleftrightarrow> (l1 \<le> c \<and> c \<le> h1) \<and> in_ranges c rs"
proof (induction rs)
  case Nil
  then show ?case by (simp add: in_ranges_Nil)
next
  case (Cons r rs)
  obtain l2 h2 where r: "r = (l2, h2)" by (cases r)
  show ?case unfolding r using Cons
    by (simp add: in_ranges_append in_ranges_Cons in_ranges_Nil) arith
qed

lemma in_ranges_intersect:
  "in_ranges c (concat (map (\<lambda>(l1, h1). concat (map (\<lambda>(l2, h2).
       if max l1 l2 \<le> min h1 h2 then [(max l1 l2, min h1 h2)] else []) bs)) as))
     \<longleftrightarrow> in_ranges c as \<and> in_ranges c bs"
proof (induction as)
  case Nil
  then show ?case by (simp add: in_ranges_Nil)
next
  case (Cons r rs)
  obtain l1 h1 where r: "r = (l1, h1)" by (cases r)
  show ?case unfolding r using Cons
    by (simp only: list.map concat.simps prod.case in_ranges_append in_ranges_Cons
          in_ranges_intersect_one) blast
qed

text \<open>The character set that \<open>union\<close> returns when it returns.\<close>

definition union_set :: "CharSet \<Rightarrow> CharSet \<Rightarrow> CharSet" where
  "union_set a b = \<lparr>maximum = maximum a, ranges = normalise (ranges a @ ranges b)\<rparr>"

lemma cs_union_Inr: "cs_union a b = Inr u \<longleftrightarrow> maximum b = maximum a \<and> u = union_set a b"
  by (auto simp: cs_union_def union_set_def)

lemma cs_union_Inl: "cs_union a b = Inl e \<longleftrightarrow> maximum b \<noteq> maximum a \<and> e = AlphabetMismatch"
  by (auto simp: cs_union_def)

lemma has_union_set [simp]: "has (union_set a b) c \<longleftrightarrow> has a c \<or> has b c"
  by (simp add: has_in_ranges union_set_def in_ranges_normalise in_ranges_append)

lemma maximum_union_set [simp]: "maximum (union_set a b) = maximum a"
  by (simp add: union_set_def)

lemma has_cs_union: "cs_union a b = Inr u \<Longrightarrow> has u c \<longleftrightarrow> has a c \<or> has b c"
  by (auto simp: cs_union_Inr)

lemma has_cs_intersect [simp]: "has (cs_intersect a b) c \<longleftrightarrow> has a c \<and> has b c"
  by (simp only: has_in_ranges cs_intersect_def CharSet.select_convs in_ranges_intersect)


section \<open>Properties of test\<close>

declare match.simps [simp del]

lemma is_path_Nil: "is_path h n [] ns \<longleftrightarrow> ns = []"
  by (cases ns) auto

lemma is_path_Cons:
  "is_path h n (c # w) ns \<longleftrightarrow>
     (\<exists>m ms chars. ns = m # ms \<and> (m, chars) \<in> set (node_out h n) \<and> has chars c \<and> is_path h m w ms)"
  by (cases ns) (auto simp: list_ex_iff)

lemma match_path:
  "match h l cs i n \<longleftrightarrow>
     (\<exists>ns. is_path h n (drop i cs) ns \<and> last (n # ns) \<in> set (list_final h l))"
proof (induction h l cs i n rule: match.induct)
  case (1 h l cs i n)
  show ?case
  proof (cases "i \<ge> length cs")
    case True
    then show ?thesis by (subst match.simps) (simp add: is_path_Nil)
  next
    case False
    then have d: "drop i cs = cs ! i # drop (i + 1) cs" by (simp add: Cons_nth_drop_Suc)
    have IH: "match h l cs (i + 1) to \<longleftrightarrow>
        (\<exists>ns. is_path h to (drop (i + 1) cs) ns \<and> last (to # ns) \<in> set (list_final h l))"
      if "(to, chars) \<in> set (node_out h n)" for to chars
      using 1[OF False that] by blast
    have unfold: "match h l cs i n \<longleftrightarrow>
        (\<exists>(to, chars) \<in> set (node_out h n). has chars (cs ! i) \<and> match h l cs (i + 1) to)"
      using False by (subst match.simps) (simp add: list_ex_iff)
    show ?thesis
    proof
      assume "match h l cs i n"
      then obtain to chars where e: "(to, chars) \<in> set (node_out h n)" "has chars (cs ! i)"
        "match h l cs (i + 1) to" unfolding unfold by blast
      from IH[OF e(1)] e(3) obtain ns where
        "is_path h to (drop (i + 1) cs) ns" "last (to # ns) \<in> set (list_final h l)" by blast
      with e(1,2) have "is_path h n (drop i cs) (to # ns) \<and> last (n # to # ns) \<in> set (list_final h l)"
        unfolding d is_path_Cons by auto
      then show "\<exists>ns. is_path h n (drop i cs) ns \<and> last (n # ns) \<in> set (list_final h l)" by blast
    next
      assume "\<exists>ns. is_path h n (drop i cs) ns \<and> last (n # ns) \<in> set (list_final h l)"
      then obtain ns where ns: "is_path h n (cs ! i # drop (i + 1) cs) ns"
        "last (n # ns) \<in> set (list_final h l)" unfolding d by blast
      from ns(1) obtain m ms chars where e: "ns = m # ms" "(m, chars) \<in> set (node_out h n)"
        "has chars (cs ! i)" "is_path h m (drop (i + 1) cs) ms"
        unfolding is_path_Cons by blast
      from ns(2) e(1) have "last (m # ms) \<in> set (list_final h l)" by simp
      with e(4) have "match h l cs (i + 1) m" using IH[OF e(2)] by blast
      with e(2,3) show "match h l cs i n" unfolding unfold by blast
    qed
  qed
qed

lemma match_edges_total:
  "\<forall>to. rec to = Some (f to) \<Longrightarrow>
     match_edges rec cp es = Some (list_ex (\<lambda>(to, chars). has chars cp \<and> f to) es)"
  by (induction es) auto

lemma match_fuel_total:
  "length characters - index < fuel \<Longrightarrow>
     match_fuel fuel h l characters index node = Some (match h l characters index node)"
proof (induction fuel arbitrary: index node)
  case 0
  then show ?case by simp
next
  case (Suc fuel)
  show ?case
  proof (cases "index \<ge> length characters")
    case True
    then show ?thesis by (subst match.simps) simp
  next
    case False
    with Suc.prems have "length characters - (index + 1) < fuel" by arith
    then have "\<And>to. match_fuel fuel h l characters (index + 1) to = Some (match h l characters (index + 1) to)"
      by (rule Suc.IH)
    then have "match_edges (\<lambda>to. match_fuel fuel h l characters (index + 1) to) (characters ! index) (node_out h node)
       = Some (list_ex (\<lambda>(to, chars). has chars (characters ! index) \<and> match h l characters (index + 1) to) (node_out h node))"
      by (intro match_edges_total) simp
    with False show ?thesis by (subst match.simps) simp
  qed
qed

lemma test_ab: "test trie_ab nfa_ab [97, 98]"
  by (simp add: test_def match.simps nfa_ab_def trie_ab_def list_initial_def has_def single_def)

text \<open>
  C5: \<open>test\<close> returns true for a word iff there is a path from the initial node to a final
  node whose successive edges carry character sets containing the successive code points
  of the word; on the empty word it returns true iff the initial node is final.
\<close>

theorem test_iff_path:
  "(test h nfa word \<longleftrightarrow>
      (\<exists>ns. is_path h (list_initial (nodes nfa)) word ns \<and>
            last (list_initial (nodes nfa) # ns) \<in> set (list_final h (nodes nfa))))
   \<and> (test h nfa [] \<longleftrightarrow> list_initial (nodes nfa) \<in> set (list_final h (nodes nfa)))"
  using match_path[of h "nodes nfa" word 0 "list_initial (nodes nfa)"]
    match_path[of h "nodes nfa" "[]" 0 "list_initial (nodes nfa)"]
  by (simp add: test_def is_path_Nil)

theorem test_iff_path_witness:
  "test trie_ab nfa_ab [97, 98] \<and> \<not> test trie_ab nfa_ab [] \<and>
   (\<exists>ns. is_path trie_ab (list_initial (nodes nfa_ab)) [97, 98] ns \<and>
         last (list_initial (nodes nfa_ab) # ns) \<in> set (list_final trie_ab (nodes nfa_ab)))"
  using test_iff_path[of trie_ab nfa_ab "[97, 98]"] test_ab
  by (simp add: nfa_ab_def trie_ab_def list_initial_def)

text \<open>
  C10: \<open>test\<close> terminates. With the depth of the recursion bounded by \<open>fuel\<close>, the
  procedure \<open>match\<close> returns (and returns the value of \<open>match\<close>) as soon as the fuel exceeds
  the number of code points left, \<open>length characters - index\<close>: every recursive call is at
  \<open>index + 1\<close>, and the loop at each level runs over the finitely many outgoing edges.
  So \<open>test\<close> needs a recursion depth of at most \<open>length word + 1\<close>.
\<close>

theorem test_terminates:
  "(length characters - index < fuel \<longrightarrow>
      match_fuel fuel h l characters index node = Some (match h l characters index node))
   \<and> (length word < fuel \<longrightarrow> test_fuel fuel h nfa word = Some (test h nfa word))"
  by (simp add: test_fuel_def test_def match_fuel_total)

theorem test_terminates_witness:
  "length [97, 98 :: int] < 3 \<and> test_fuel 3 trie_ab nfa_ab [97, 98] = Some True"
  using test_terminates[of "[97, 98]" 0 3 trie_ab 0 "NFANode 0 0" "[97, 98]" nfa_ab] test_ab by simp

section \<open>Properties of linkNodes\<close>

lemma fromWords_ab: "fromWords empty_heap [[97, 98]] example_opts = Inr (trie_ab, nfa_ab)"
  apply (simp add: fromWords_def new_NodeList_def createNode_def empty_heap_def add_word_def getNext_def
      isInteger_def example_opts_def list_initial_def union_ranges_def cs_empty_def normalise_def
      linkNodes_def isEmpty_def add_def cs_union_def set_add_def baseOptimizationReuseFinalStates_def
      asSubList_def
      setFinal_def Let_def trie_ab_def nfa_ab_def single_def)
  apply (auto simp: fun_eq_iff)
  done

text \<open>
  The map that \<open>add\<close> returns when it returns: \<open>add\<close> fails only through \<open>union\<close>, when
  the map holds a label for the key whose maximum is not that of the new label.
\<close>

definition added :: "adjacency \<Rightarrow> NFANode \<Rightarrow> CharSet \<Rightarrow> adjacency" where
  "added m to chars =
     AList.update to (case map_of m to of None \<Rightarrow> chars | Some L \<Rightarrow> union_set L chars) m"

lemma add_Inr:
  "add m to chars = Inr m' \<longleftrightarrow>
     (\<forall>L. map_of m to = Some L \<longrightarrow> maximum chars = maximum L) \<and> m' = added m to chars"
  by (auto simp: add_def added_def cs_union_def union_set_def split: option.splits)

lemma add_Inl:
  "add m to chars = Inl e \<longleftrightarrow>
     (\<exists>L. map_of m to = Some L \<and> maximum chars \<noteq> maximum L) \<and> e = AlphabetMismatch"
  by (auto simp: add_def cs_union_def split: option.splits)

lemma map_of_added:
  "map_of (added m to chars) k =
     (if k = to then Some (case map_of m to of None \<Rightarrow> chars | Some L \<Rightarrow> union_set L chars)
      else map_of m k)"
  by (simp add: added_def update_conv')

lemma linkNodes_Inr:
  "linkNodes h this from to chars = Inr h' \<longleftrightarrow>
     node_list from = node_list to \<and> node_list from = this \<and> \<not> isEmpty chars \<and>
     (\<forall>L. map_of (node_out h from) to = Some L \<longrightarrow> maximum chars = maximum L) \<and>
     (\<forall>L. map_of (node_in h to) from = Some L \<longrightarrow> maximum chars = maximum L) \<and>
     h' = h\<lparr>node_out := (node_out h)(from := added (node_out h from) to chars),
            node_in := (node_in h)(to := added (node_in h to) from chars)\<rparr>"
  by (auto simp: linkNodes_def add_Inr add_Inl split: sum.splits)





section \<open>Evaluating the construction functions\<close>

lemmas eval_defs = fromWords_def new_NodeList_def createNode_def empty_heap_def add_word_def
  getNext_def isInteger_def example_opts_def list_initial_def union_ranges_def cs_empty_def
  normalise_def linkNodes_def isEmpty_def add_def cs_union_def set_add_def
  baseOptimizationReuseFinalStates_def
  asSubList_def setFinal_def Let_def has_def

lemma floor_minus_one: "\<lfloor>- 1 :: real\<rfloor> = - 1"
  using floor_of_int[of "- 1", where ?'a = real] by simp

text \<open>
  C1: \<open>concat\<close> should work on a local copy of the other automaton's nodes, as \<open>union\<close>
  does. It passes the other automaton's node list itself to \<open>baseConcat\<close>: for the
  automata of the words \<open>a\<close> and \<open>b\<close> the first \<open>linkNodes\<close> throws, since its target
  belongs to the other node list.
\<close>

theorem concat_distinct_fails:
  "\<exists>h1 a h2 b. fromWords empty_heap [[97]] example_opts = Inr (h1, a)
      \<and> fromWords h1 [[98]] example_opts = Inr (h2, b)
      \<and> nodes a \<noteq> nodes b \<and> options a = options b
      \<and> NFA_concat h2 a b = Some (Inl DifferentNodeLists)"
  by (simp add: eval_defs NFA_concat_def checkOptionsCompatibility_def baseConcat_def)

text \<open>
  C3: after every public operation the initial node should have no incoming edges.
  \<open>fromDFA\<close> mirrors the transitions of the DFA as they are: for the one-node DFA of
  \<open>a*\<close> the initial node of the result has an edge from itself.
\<close>

theorem fromDFA_initial_has_incoming:
  "\<exists>h nfa. fromDFA empty_heap dfa_a_star = Some (Inr (h, nfa))
      \<and> node_in h (list_initial (nodes nfa)) =
            [(list_initial (nodes nfa), \<lparr>maximum = 65535, ranges = [(97, 97)]\<rparr>)]"
  by (simp add: fromDFA_def dfa_a_star_def DFS_def DFS_loop.simps fromDFA_visit_def
      invertCharMap_def cached_createNode_def rbind_def eval_defs)

section \<open>The invariant of the store\<close>

definition allocated :: "heap \<Rightarrow> NFANode \<Rightarrow> bool" where
  "allocated h n = (node_id n < nodeCounter h (node_list n))"

definition adj_symmetric :: "heap \<Rightarrow> bool" where
  "adj_symmetric h = (\<forall>a b. map_of (node_out h a) b = map_of (node_in h b) a)"

definition heap_inv :: "heap \<Rightarrow> bool" where
  "heap_inv h \<longleftrightarrow>
     adj_symmetric h
     \<and> (\<forall>n. \<not> allocated h n \<longrightarrow> node_out h n = [] \<and> node_in h n = [])
     \<and> (\<forall>a b. map_of (node_out h a) b \<noteq> None \<longrightarrow> node_list b = node_list a)
     \<and> (\<forall>n. distinct (map fst (node_out h n)) \<and> distinct (map fst (node_in h n)))
     \<and> (\<forall>a b S. map_of (node_out h a) b = Some S \<longrightarrow> (\<exists>c. has S c))
     \<and> (\<forall>l. \<forall>f \<in> set (list_final h l). allocated h f)
     \<and> (\<forall>l. (l < list_counter h \<longrightarrow> 0 < nodeCounter h l)
            \<and> (list_counter h \<le> l \<longrightarrow> nodeCounter h l = 0 \<and> list_final h l = []))"

definition heap_le :: "heap \<Rightarrow> heap \<Rightarrow> bool" where
  "heap_le h h' \<longleftrightarrow> (\<forall>l. nodeCounter h l \<le> nodeCounter h' l) \<and> list_counter h \<le> list_counter h'"

definition pres :: "heap \<Rightarrow> heap \<Rightarrow> bool" where
  "pres h h' \<longleftrightarrow> heap_inv h' \<and> heap_le h h'"

lemma heap_le_refl [simp]: "heap_le h h"
  by (simp add: heap_le_def)

lemma heap_le_trans: "heap_le h1 h2 \<Longrightarrow> heap_le h2 h3 \<Longrightarrow> heap_le h1 h3"
  unfolding heap_le_def by (meson le_trans)

lemma pres_refl: "heap_inv h \<Longrightarrow> pres h h"
  by (simp add: pres_def)

lemma pres_trans: "pres h1 h2 \<Longrightarrow> pres h2 h3 \<Longrightarrow> pres h1 h3"
  unfolding pres_def using heap_le_trans by blast

lemma allocated_mono: "heap_le h h' \<Longrightarrow> allocated h n \<Longrightarrow> allocated h' n"
  unfolding heap_le_def allocated_def by (meson less_le_trans)

lemma pres_allocated: "pres h h' \<Longrightarrow> allocated h n \<Longrightarrow> allocated h' n"
  unfolding pres_def using allocated_mono by blast

lemma pres_inv: "pres h h' \<Longrightarrow> heap_inv h'"
  by (simp add: pres_def)

lemma map_of_distinct_mem:
  "distinct (map fst m) \<Longrightarrow> (k, v) \<in> set m \<Longrightarrow> map_of m k = Some v"
  by simp

lemma out_edge:
  assumes "heap_inv h" "(b, S) \<in> set (node_out h a)"
  shows "map_of (node_out h a) b = Some S" "map_of (node_in h b) a = Some S"
    "allocated h a" "allocated h b" "node_list b = node_list a" "\<exists>c. has S c"
proof -
  from assms show o: "map_of (node_out h a) b = Some S"
    unfolding heap_inv_def by (intro map_of_distinct_mem) auto
  with assms(1) show i: "map_of (node_in h b) a = Some S"
    unfolding heap_inv_def adj_symmetric_def by metis
  from assms show "allocated h a" unfolding heap_inv_def by fastforce
  from i assms(1) show "allocated h b" unfolding heap_inv_def by fastforce
  from o assms(1) show "node_list b = node_list a" unfolding heap_inv_def by blast
  from o assms(1) show "\<exists>c. has S c" unfolding heap_inv_def by blast
qed

lemma in_edge:
  assumes "heap_inv h" "(a, S) \<in> set (node_in h b)"
  shows "map_of (node_in h b) a = Some S" "map_of (node_out h a) b = Some S"
    "allocated h a" "allocated h b" "node_list b = node_list a" "\<exists>c. has S c"
proof -
  from assms show i: "map_of (node_in h b) a = Some S"
    unfolding heap_inv_def by (intro map_of_distinct_mem) auto
  with assms(1) show o: "map_of (node_out h a) b = Some S"
    unfolding heap_inv_def adj_symmetric_def by metis
  from assms show "allocated h b" unfolding heap_inv_def by fastforce
  from o assms(1) show "allocated h a" unfolding heap_inv_def by fastforce
  from o assms(1) show "node_list b = node_list a" unfolding heap_inv_def by blast
  from o assms(1) show "\<exists>c. has S c" unfolding heap_inv_def by blast
qed

lemma has_add_label:
  "\<exists>c. has chars c \<Longrightarrow> \<exists>c. has (case x of None \<Rightarrow> chars | Some L \<Rightarrow> union_set L chars) c"
  by (cases x) auto

lemma distinct_add: "distinct (map fst m) \<Longrightarrow> distinct (map fst (added m k v))"
  by (simp add: added_def distinct_update)

lemma add_not_Nil: "added m k v \<noteq> []"
  by (cases m) (auto simp: added_def)

lemma linkNodes_pres:
  assumes inv: "heap_inv h" and a: "allocated h from" "allocated h to" and c: "\<exists>c. has chars c"
    and l: "linkNodes h this from to chars = Inr h'"
  shows "pres h h'"
proof -
  from l have h': "h' = h\<lparr>node_out := (node_out h)(from := added (node_out h from) to chars),
            node_in := (node_in h)(to := added (node_in h to) from chars)\<rparr>"
    and ll: "node_list from = node_list to"
    by (simp_all add: linkNodes_Inr)
  have al: "allocated h' = allocated h" by (simp add: h' allocated_def fun_eq_iff)
  have o: "map_of (node_out h' x) y = (if x = from \<and> y = to
      then Some (case map_of (node_out h from) to of None \<Rightarrow> chars | Some L \<Rightarrow> union_set L chars)
      else map_of (node_out h x) y)" for x y
    by (simp add: h' map_of_added)
  have i: "map_of (node_in h' y) x = (if x = from \<and> y = to
      then Some (case map_of (node_in h to) from of None \<Rightarrow> chars | Some L \<Rightarrow> union_set L chars)
      else map_of (node_in h y) x)" for x y
    by (simp add: h' map_of_added)
  from inv have sym: "map_of (node_out h x) y = map_of (node_in h y) x" for x y
    by (simp add: heap_inv_def adj_symmetric_def)
  have 1: "adj_symmetric h'" unfolding adj_symmetric_def o i by (simp add: sym)
  have 2: "\<forall>n. \<not> allocated h' n \<longrightarrow> node_out h' n = [] \<and> node_in h' n = []"
    using inv a unfolding al by (auto simp: h' heap_inv_def)
  have 3: "\<forall>x y. map_of (node_out h' x) y \<noteq> None \<longrightarrow> node_list y = node_list x"
    using inv ll unfolding o by (auto simp: heap_inv_def)
  have 4: "\<forall>n. distinct (map fst (node_out h' n)) \<and> distinct (map fst (node_in h' n))"
    using inv by (auto simp: h' heap_inv_def distinct_add)
  have 5: "\<forall>x y S. map_of (node_out h' x) y = Some S \<longrightarrow> (\<exists>c. has S c)"
    using inv has_add_label[OF c] unfolding o by (auto simp: heap_inv_def)
  have 6: "\<forall>l. \<forall>f \<in> set (list_final h' l). allocated h' f"
    using inv unfolding al by (simp add: h' heap_inv_def)
  have 7: "\<forall>l. (l < list_counter h' \<longrightarrow> 0 < nodeCounter h' l)
            \<and> (list_counter h' \<le> l \<longrightarrow> nodeCounter h' l = 0 \<and> list_final h' l = [])"
    using inv by (simp add: h' heap_inv_def)
  from 1 2 3 4 5 6 7 show ?thesis by (simp add: pres_def heap_inv_def heap_le_def h')
qed

lemma unlinkNodes_Inr:
  "unlinkNodes h this from to = Inr h' \<longleftrightarrow>
     node_list from = node_list to \<and> node_list from = this \<and> map_of (node_out h from) to \<noteq> None \<and>
     h' = h\<lparr>node_out := (node_out h)(from := AList.delete to (node_out h from)),
            node_in := (node_in h)(to := AList.delete from (node_in h to))\<rparr>"
  by (auto simp: unlinkNodes_def Let_def)

lemma unlinkNodes_pres:
  assumes inv: "heap_inv h" and l: "unlinkNodes h this from to = Inr h'"
  shows "pres h h'"
proof -
  from l have h': "h' = h\<lparr>node_out := (node_out h)(from := AList.delete to (node_out h from)),
            node_in := (node_in h)(to := AList.delete from (node_in h to))\<rparr>"
    by (simp add: unlinkNodes_Inr)
  have al: "allocated h' = allocated h" by (simp add: h' allocated_def fun_eq_iff)
  have o: "map_of (node_out h' x) y = (if x = from \<and> y = to then None else map_of (node_out h x) y)" for x y
    by (simp add: h' delete_conv')
  have i: "map_of (node_in h' y) x = (if x = from \<and> y = to then None else map_of (node_in h y) x)" for x y
    by (simp add: h' delete_conv')
  from inv have sym: "map_of (node_out h x) y = map_of (node_in h y) x" for x y
    by (simp add: heap_inv_def adj_symmetric_def)
  have 1: "adj_symmetric h'" unfolding adj_symmetric_def o i by (simp add: sym)
  have 2: "\<forall>n. \<not> allocated h' n \<longrightarrow> node_out h' n = [] \<and> node_in h' n = []"
    using inv unfolding al by (auto simp: h' heap_inv_def AList.delete_eq)
  have 3: "\<forall>x y. map_of (node_out h' x) y \<noteq> None \<longrightarrow> node_list y = node_list x"
    using inv unfolding o by (auto simp: heap_inv_def)
  have 4: "\<forall>n. distinct (map fst (node_out h' n)) \<and> distinct (map fst (node_in h' n))"
    using inv by (auto simp: h' heap_inv_def distinct_delete)
  have 5: "\<forall>x y S. map_of (node_out h' x) y = Some S \<longrightarrow> (\<exists>c. has S c)"
    using inv unfolding o by (auto simp: heap_inv_def)
  have 6: "\<forall>l. \<forall>f \<in> set (list_final h' l). allocated h' f"
    using inv unfolding al by (simp add: h' heap_inv_def)
  have 7: "\<forall>l. (l < list_counter h' \<longrightarrow> 0 < nodeCounter h' l)
            \<and> (list_counter h' \<le> l \<longrightarrow> nodeCounter h' l = 0 \<and> list_final h' l = [])"
    using inv by (simp add: h' heap_inv_def)
  from 1 2 3 4 5 6 7 show ?thesis by (simp add: pres_def heap_inv_def heap_le_def h')
qed

lemma createNode_pres:
  assumes inv: "heap_inv h" and l: "l < list_counter h" and c: "createNode h l = (h', n)"
  shows "pres h h'" "allocated h' n" "\<not> allocated h n" "node_list n = l"
    "node_out h' n = []" "node_in h' n = []"
proof -
  from c have n: "n = NFANode l (nodeCounter h l)"
    and h': "h' = h\<lparr>nodeCounter := (nodeCounter h)(l := nodeCounter h l + 1),
        node_out := (node_out h)(n := []), node_in := (node_in h)(n := [])\<rparr>"
    by (auto simp: createNode_def)
  show na: "\<not> allocated h n" by (simp add: n allocated_def)
  show "allocated h' n" by (simp add: n h' allocated_def)
  show "node_list n = l" by (simp add: n)
  show "node_out h' n = []" "node_in h' n = []" by (simp_all add: h')
  from inv na have e: "node_out h n = []" "node_in h n = []" by (auto simp: heap_inv_def)
  then have same: "node_out h' = node_out h" "node_in h' = node_in h"
    by (auto simp: h' fun_eq_iff)
  have fin: "list_final h' = list_final h" "list_counter h' = list_counter h" by (simp_all add: h')
  have al: "allocated h x \<Longrightarrow> allocated h' x" for x
    by (auto simp: h' allocated_def)
  have 1: "adj_symmetric h'" using inv unfolding adj_symmetric_def same by (simp add: heap_inv_def adj_symmetric_def)
  have 2: "\<forall>x. \<not> allocated h' x \<longrightarrow> node_out h' x = [] \<and> node_in h' x = []"
    using inv al unfolding same by (auto simp: heap_inv_def)
  have 3: "\<forall>x y. map_of (node_out h' x) y \<noteq> None \<longrightarrow> node_list y = node_list x"
    using inv unfolding same by (simp add: heap_inv_def)
  have 4: "\<forall>n. distinct (map fst (node_out h' n)) \<and> distinct (map fst (node_in h' n))"
    using inv unfolding same by (simp add: heap_inv_def)
  have 5: "\<forall>x y S. map_of (node_out h' x) y = Some S \<longrightarrow> (\<exists>c. has S c)"
    using inv unfolding same by (simp add: heap_inv_def)
  have 6: "\<forall>l. \<forall>f \<in> set (list_final h' l). allocated h' f"
    using inv al unfolding fin by (simp add: heap_inv_def)
  have 7: "\<forall>k. (k < list_counter h' \<longrightarrow> 0 < nodeCounter h' k)
            \<and> (list_counter h' \<le> k \<longrightarrow> nodeCounter h' k = 0 \<and> list_final h' k = [])"
    using inv l unfolding fin by (auto simp: heap_inv_def h')
  from 1 2 3 4 5 6 7 show "pres h h'"
    unfolding pres_def heap_inv_def heap_le_def by (simp add: h')
qed

lemma pres_list: "pres h h' \<Longrightarrow> l < list_counter h \<Longrightarrow> l < list_counter h'"
  by (auto simp: pres_def heap_le_def)

lemma new_NodeList_pres:
  assumes inv: "heap_inv h" and c: "new_NodeList h = (h', l)"
  shows "pres h h'" "l < list_counter h'" "list_counter h \<le> l" "list_final h' l = []"
    "node_out h' (list_initial l) = []" "node_in h' (list_initial l) = []"
    "allocated h' (list_initial l)"
proof -
  from inv have z: "nodeCounter h (list_counter h) = 0" "list_final h (list_counter h) = []"
    by (auto simp: heap_inv_def)
  from c have l: "l = list_counter h"
    and h': "h' = h\<lparr>list_counter := list_counter h + 1,
                 list_final := (list_final h)(l := []),
                 nodeCounter := (nodeCounter h)(l := 1),
                 node_out := (node_out h)(NFANode l 0 := []),
                 node_in := (node_in h)(NFANode l 0 := [])\<rparr>"
    by (auto simp: new_NodeList_def Let_def createNode_def z)
  have "\<not> allocated h (NFANode l 0)" by (simp add: allocated_def l z)
  with inv have e: "node_out h (NFANode l 0) = []" "node_in h (NFANode l 0) = []"
    by (auto simp: heap_inv_def)
  then have same: "node_out h' = node_out h" "node_in h' = node_in h"
    by (auto simp: h' fun_eq_iff)
  have fin: "list_final h' = list_final h" using z by (auto simp: h' l fun_eq_iff)
  have al: "allocated h x \<Longrightarrow> allocated h' x" for x
    using z by (auto simp: h' allocated_def l)
  show "l < list_counter h'" "list_counter h \<le> l" by (simp_all add: h' l)
  show "list_final h' l = []" by (simp add: h')
  show "node_out h' (list_initial l) = []" "node_in h' (list_initial l) = []"
    by (simp_all add: h' list_initial_def)
  show "allocated h' (list_initial l)" by (simp add: h' list_initial_def allocated_def)
  have 1: "adj_symmetric h'" using inv unfolding adj_symmetric_def same by (simp add: heap_inv_def adj_symmetric_def)
  have 2: "\<forall>x. \<not> allocated h' x \<longrightarrow> node_out h' x = [] \<and> node_in h' x = []"
    using inv al unfolding same by (auto simp: heap_inv_def)
  have 3: "\<forall>x y. map_of (node_out h' x) y \<noteq> None \<longrightarrow> node_list y = node_list x"
    using inv unfolding same by (simp add: heap_inv_def)
  have 4: "\<forall>n. distinct (map fst (node_out h' n)) \<and> distinct (map fst (node_in h' n))"
    using inv unfolding same by (simp add: heap_inv_def)
  have 5: "\<forall>x y S. map_of (node_out h' x) y = Some S \<longrightarrow> (\<exists>c. has S c)"
    using inv unfolding same by (simp add: heap_inv_def)
  have 6: "\<forall>l. \<forall>f \<in> set (list_final h' l). allocated h' f"
    using inv al unfolding fin by (simp add: heap_inv_def)
  have 7: "\<forall>k. (k < list_counter h' \<longrightarrow> 0 < nodeCounter h' k)
            \<and> (list_counter h' \<le> k \<longrightarrow> nodeCounter h' k = 0 \<and> list_final h' k = [])"
    using inv unfolding fin by (auto simp: heap_inv_def h' l less_Suc_eq)
  from 1 2 3 4 5 6 7 have "heap_inv h'" unfolding heap_inv_def by blast
  moreover have "heap_le h h'" using z by (simp add: heap_le_def h' l)
  ultimately show "pres h h'" by (simp add: pres_def)
qed

subsection \<open>Loops\<close>

lemma forEach_rule:
  assumes "forEach xs f s = Inr s'" and "P s"
    and "\<And>x s s'. x \<in> set xs \<Longrightarrow> P s \<Longrightarrow> f x s = Inr s' \<Longrightarrow> P s'"
  shows "P s'"
  using assms
proof (induction xs arbitrary: s)
  case Nil
  then show ?case by simp
next
  case (Cons x xs)
  from Cons.prems(1) obtain s1 where s1: "f x s = Inr s1" "forEach xs f s1 = Inr s'"
    by (auto split: sum.splits)
  have "P s1" using Cons.prems(3)[OF _ Cons.prems(2) s1(1)] by simp
  then show ?case using Cons.IH[OF s1(2)] Cons.prems(3) by auto
qed

lemma forEachP_rule:
  assumes "forEachP xs f s = Some (Inr s')" and "P s"
    and "\<And>x s s'. x \<in> set xs \<Longrightarrow> P s \<Longrightarrow> f x s = Some (Inr s') \<Longrightarrow> P s'"
  shows "P s'"
  using assms
proof (induction xs arbitrary: s)
  case Nil
  then show ?case by simp
next
  case (Cons x xs)
  from Cons.prems(1) obtain s1 where s1: "f x s = Some (Inr s1)" "forEachP xs f s1 = Some (Inr s')"
    by (auto simp: rbind_def split: option.splits sum.splits)
  have "P s1" using Cons.prems(3)[OF _ Cons.prems(2) s1(1)] by simp
  then show ?case using Cons.IH[OF s1(2)] Cons.prems(3) by auto
qed

lemma rbind_Some_Inr:
  "rbind m f = Some (Inr y) \<longleftrightarrow> (\<exists>x. m = Some (Inr x) \<and> f x = Some (Inr y))"
  by (auto simp: rbind_def split: option.splits sum.splits)

lemma DFS_loop_rule_aux:
  assumes run: "DFS_loop next stack visited s = Some r" and P: "P s"
    and step: "\<And>x s s' out. P s \<Longrightarrow> next x s = Inr (s', out) \<Longrightarrow> P s'"
  shows "case r of Inl e \<Rightarrow> True | Inr s' \<Rightarrow> P s'"
proof -
  note R = DFS_loop.raw_induct[where P = "\<lambda>nxt stack visited s r.
      nxt = next \<longrightarrow> P s \<longrightarrow> (case r of Inl e \<Rightarrow> True | Inr s' \<Rightarrow> P s')"]
  have "next = next \<longrightarrow> P s \<longrightarrow> (case r of Inl e \<Rightarrow> True | Inr s' \<Rightarrow> P s')"
  proof (rule R[OF _ run], intro impI)
    fix loop nxt visitStack visited s r
    assume IH: "\<And>nxt visitStack visited s r. loop nxt visitStack visited s = Some r \<Longrightarrow>
        nxt = next \<longrightarrow> P s \<longrightarrow> (case r of Inl e \<Rightarrow> True | Inr s' \<Rightarrow> P s')"
      and body: "(case visitStack of [] \<Rightarrow> Some (Inr s)
          | element # rest \<Rightarrow>
              if element \<in> set visited then loop nxt rest visited s
              else case nxt element s of Inl e \<Rightarrow> Some (Inl e)
                   | Inr (s', elements) \<Rightarrow> loop nxt (rev elements @ rest) (element # visited) s') = Some r"
      and n: "nxt = next" and Ps: "P s"
    show "case r of Inl e \<Rightarrow> True | Inr s' \<Rightarrow> P s'"
    proof (cases visitStack)
      case Nil
      with body Ps show ?thesis by auto
    next
      case (Cons element rest)
      show ?thesis
      proof (cases "element \<in> set visited")
        case True
        with body Cons have "loop nxt rest visited s = Some r" by simp
        from IH[OF this] n Ps show ?thesis by simp
      next
        case False
        show ?thesis
        proof (cases "nxt element s")
          case (Inl e)
          with body Cons False show ?thesis by auto
        next
          case (Inr p)
          obtain s' elements where p: "p = (s', elements)" by (cases p)
          with body Cons False Inr
          have "loop nxt (rev elements @ rest) (element # visited) s' = Some r" by simp
          moreover have "P s'" using step[OF Ps] Inr p n by simp
          ultimately show ?thesis using IH n by blast
        qed
      qed
    qed
  qed
  with P show ?thesis by simp
qed

lemma DFS_rule:
  assumes "DFS start next s = Some (Inr s')" and "P s"
    and "\<And>x s s' out. P s \<Longrightarrow> next x s = Inr (s', out) \<Longrightarrow> P s'"
  shows "P s'"
  using DFS_loop_rule_aux[of "next" "[start]" "[]" s "Inr s'" P] assms
  by (simp add: DFS_def)

section \<open>Sub-list transformers keep the invariant\<close>

definition sub_alloc :: "heap \<Rightarrow> SubList \<Rightarrow> bool" where
  "sub_alloc h base \<longleftrightarrow> allocated h (initial base) \<and> (\<forall>f \<in> set (final base). allocated h f)"

lemma sub_alloc_mono: "pres h h' \<Longrightarrow> sub_alloc h base \<Longrightarrow> sub_alloc h' base"
  unfolding sub_alloc_def using pres_allocated by blast

lemma set_set_add [simp]: "set (set_add xs x) = insert x (set xs)"
  by (auto simp: set_add_def)

lemma set_set_delete [simp]: "set (set_delete xs x) = set xs - {x}"
  by (auto simp: set_delete_def)

lemma baseMakeEmpty_pres:
  assumes inv: "heap_inv h" and run: "baseMakeEmpty h nodeList base = Inr (h', base')"
  shows "pres h h'" "base' = base\<lparr>final := []\<rparr>"
proof -
  from run obtain h1 where f: "forEach (map fst (node_out h (initial base)))
      (\<lambda>out h. unlinkNodes h nodeList (initial base) out) h = Inr h1"
    and r: "h' = h1" "base' = base\<lparr>final := []\<rparr>"
    by (auto simp: baseMakeEmpty_def split: sum.splits)
  have "pres h h1"
    by (rule forEach_rule[OF f, where P = "pres h"])
       (auto intro: pres_refl inv pres_trans unlinkNodes_pres dest: pres_inv)
  with r show "pres h h'" "base' = base\<lparr>final := []\<rparr>" by simp_all
qed

lemma transfer_finals_alloc:
  "sub_alloc h base \<Longrightarrow> sub_alloc h other \<Longrightarrow> sub_alloc h (transfer_finals base other)"
proof -
  have "set (fold (\<lambda>f acc. set_add acc (g f)) xs acc) = g ` set xs \<union> set acc" for g :: "NFANode \<Rightarrow> NFANode" and xs acc
    by (induction xs arbitrary: acc) auto
  then show "sub_alloc h base \<Longrightarrow> sub_alloc h other \<Longrightarrow> sub_alloc h (transfer_finals base other)"
    by (auto simp: sub_alloc_def transfer_finals_def)
qed

lemma transfer_finals_initial [simp]: "initial (transfer_finals base other) = initial base"
  by (simp add: transfer_finals_def)

lemma transfer_nodes_pres:
  assumes inv: "heap_inv h" and b: "allocated h (initial base)"
    and run: "transfer_nodes h nodeList base other = Inr h'"
  shows "pres h h'"
proof (rule forEach_rule[OF run[unfolded transfer_nodes_def], where P = "pres h"])
  show "pres h h" by (rule pres_refl[OF inv])
next
  fix x s s'
  assume x: "x \<in> set (node_out h (initial other))" and P: "pres h s"
    and step: "(case x of (to, characters) \<Rightarrow> \<lambda>h.
        case linkNodes h nodeList (initial base) to characters of
          Inl e \<Rightarrow> Inl e | Inr h1 \<Rightarrow> unlinkNodes h1 nodeList (initial other) to) s = Inr s'"
  obtain to chars where xe: "x = (to, chars)" by (cases x)
  from step obtain h1 where l: "linkNodes s nodeList (initial base) to chars = Inr h1"
    and u: "unlinkNodes h1 nodeList (initial other) to = Inr s'"
    by (auto simp: xe split: sum.splits)
  from out_edge[OF inv x[unfolded xe]] have "allocated h to" "\<exists>c. has chars c" by auto
  with P b have "pres s h1"
    by (intro linkNodes_pres[OF _ _ _ _ l]) (auto dest: pres_inv pres_allocated)
  moreover from this have "pres h1 s'" by (intro unlinkNodes_pres[OF _ u]) (rule pres_inv)
  ultimately show "pres h s'" using P pres_trans by blast
qed

lemma baseReplaceWith_pres:
  assumes inv: "heap_inv h" and b: "sub_alloc h base" "sub_alloc h replacement"
    and run: "baseReplaceWith h nodeList base replacement = Inr (h', base')"
  shows "pres h h'" "sub_alloc h' base'" "initial base' = initial base"
proof -
  from run obtain h1 base1 where e: "baseMakeEmpty h nodeList base = Inr (h1, base1)"
    and t: "transfer_nodes h1 nodeList (transfer_finals base1 replacement) replacement = Inr h'"
    and r: "base' = transfer_finals base1 replacement"
    by (auto simp: baseReplaceWith_def Let_def split: sum.splits)
  from baseMakeEmpty_pres[OF inv e] have p1: "pres h h1" and b1: "base1 = base\<lparr>final := []\<rparr>" by auto
  have s1: "sub_alloc h1 base1" using b(1) p1 by (auto simp: b1 sub_alloc_def dest: pres_allocated)
  have s2: "sub_alloc h1 replacement" using sub_alloc_mono[OF p1 b(2)] .
  have p2: "pres h1 h'" using transfer_nodes_pres[OF pres_inv[OF p1] _ t] s1
    by (simp add: sub_alloc_def)
  show "pres h h'" using p1 p2 pres_trans by blast
  show "sub_alloc h' base'" unfolding r using transfer_finals_alloc[OF s1 s2] sub_alloc_mono[OF p2] by blast
  show "initial base' = initial base" by (simp add: r b1)
qed

lemma baseOptimizationReuseFinalStates_pres:
  assumes inv: "heap_inv h" and b: "sub_alloc h base"
    and run: "baseOptimizationReuseFinalStates h nodeList base = Inr (h', base')"
  shows "pres h h'" "sub_alloc h' base'" "initial base' = initial base"
    "set (final base') \<subseteq> set (final base)"
proof -
  define reusable where "reusable = filter (\<lambda>f. f \<noteq> initial base \<and> node_out h f = []) (final base)"
  define P where "P = (\<lambda>(s :: heap, b :: SubList). pres h s \<and> initial b = initial base \<and> set (final b) \<subseteq> set (final base))"
  have "P (h', base')"
  proof (cases "length reusable > 1")
    case False
    with run have "h' = h" "base' = base"
      by (auto simp: baseOptimizationReuseFinalStates_def Let_def reusable_def)
    then show ?thesis by (simp add: P_def pres_refl[OF inv])
  next
    case True
    then have ne: "reusable \<noteq> []" by auto
    have m: "last reusable \<in> set (final base)"
      using last_in_set[OF ne] by (auto simp: reusable_def)
    from True run have f: "forEach (butlast reusable)
           (\<lambda>toRemove (h, base).
              case forEach (node_in h toRemove)
                     (\<lambda>(to, characters) h.
                        case linkNodes h nodeList to (last reusable) characters of
                          Inl e \<Rightarrow> Inl e
                        | Inr h1 \<Rightarrow> unlinkNodes h1 nodeList to toRemove) h of
                Inl e \<Rightarrow> Inl e
              | Inr h' \<Rightarrow> Inr (h', base\<lparr>final := set_delete (final base) toRemove\<rparr>))
           (h, base) = Inr (h', base')"
      by (simp add: baseOptimizationReuseFinalStates_def Let_def reusable_def)
    show ?thesis
    proof (rule forEach_rule[OF f, where P = P])
      show "P (h, base)" by (simp add: P_def pres_refl[OF inv])
    next
      fix toRemove s s'
      assume Ps: "P s" and step: "(case s of (h, base) \<Rightarrow>
              case forEach (node_in h toRemove)
                     (\<lambda>(to, characters) h.
                        case linkNodes h nodeList to (last reusable) characters of
                          Inl e \<Rightarrow> Inl e
                        | Inr h1 \<Rightarrow> unlinkNodes h1 nodeList to toRemove) h of
                Inl e \<Rightarrow> Inl e
              | Inr h' \<Rightarrow> Inr (h', base\<lparr>final := set_delete (final base) toRemove\<rparr>)) = Inr s'"
      obtain hs bs where s: "s = (hs, bs)" by (cases s)
      from step obtain h2 where
        g: "forEach (node_in hs toRemove)
                     (\<lambda>(to, characters) h.
                        case linkNodes h nodeList to (last reusable) characters of
                          Inl e \<Rightarrow> Inl e
                        | Inr h1 \<Rightarrow> unlinkNodes h1 nodeList to toRemove) hs = Inr h2"
        and s': "s' = (h2, bs\<lparr>final := set_delete (final bs) toRemove\<rparr>)"
        by (auto simp: s split: sum.splits)
      from Ps have ph: "pres h hs" and ib: "initial bs = initial base" "set (final bs) \<subseteq> set (final base)"
        by (auto simp: P_def s)
      have am: "allocated hs (last reusable)"
        using m b ph by (auto simp: sub_alloc_def dest: pres_allocated)
      have "pres hs h2"
      proof (rule forEach_rule[OF g, where P = "pres hs"])
        show "pres hs hs" using ph by (auto intro: pres_refl dest: pres_inv)
      next
        fix x t t'
        assume x: "x \<in> set (node_in hs toRemove)" and Pt: "pres hs t"
          and st: "(case x of (to, characters) \<Rightarrow> \<lambda>h.
                        case linkNodes h nodeList to (last reusable) characters of
                          Inl e \<Rightarrow> Inl e
                        | Inr h1 \<Rightarrow> unlinkNodes h1 nodeList to toRemove) t = Inr t'"
        obtain to chars where xe: "x = (to, chars)" by (cases x)
        from st obtain h1 where l: "linkNodes t nodeList to (last reusable) chars = Inr h1"
          and u: "unlinkNodes h1 nodeList to toRemove = Inr t'"
          by (auto simp: xe split: sum.splits)
        from in_edge[OF pres_inv[OF ph] x[unfolded xe]] have "allocated hs to" "\<exists>c. has chars c" by auto
        with Pt am have "pres t h1"
          by (intro linkNodes_pres[OF _ _ _ _ l]) (auto dest: pres_inv pres_allocated)
        moreover from this have "pres h1 t'" by (intro unlinkNodes_pres[OF _ u]) (rule pres_inv)
        ultimately show "pres hs t'" using Pt pres_trans by blast
      qed
      with ph ib show "P s'" by (auto simp: P_def s' intro: pres_trans)
    qed
  qed
  then show "pres h h'" "initial base' = initial base" "set (final base') \<subseteq> set (final base)"
    by (auto simp: P_def)
  with b show "sub_alloc h' base'" by (auto simp: sub_alloc_def dest: pres_allocated)
qed

lemma baseUnion_pres:
  assumes inv: "heap_inv h" and b: "sub_alloc h base" "sub_alloc h alternative"
    and run: "baseUnion h nodeList base alternative = Inr (h', base')"
  shows "pres h h'" "sub_alloc h' base'" "initial base' = initial base"
proof -
  from run obtain h1 where
    t: "transfer_nodes h nodeList (transfer_finals base alternative) alternative = Inr h1"
    and o: "baseOptimizationReuseFinalStates h1 nodeList (transfer_finals base alternative) = Inr (h', base')"
    by (auto simp: baseUnion_def Let_def split: sum.splits)
  have s0: "sub_alloc h (transfer_finals base alternative)" using transfer_finals_alloc[OF b] .
  have p1: "pres h h1" using transfer_nodes_pres[OF inv _ t] b(1) by (simp add: sub_alloc_def)
  note r = baseOptimizationReuseFinalStates_pres[OF pres_inv[OF p1] sub_alloc_mono[OF p1 s0] o]
  show "pres h h'" using p1 r(1) pres_trans by blast
  show "sub_alloc h' base'" by (rule r(2))
  show "initial base' = initial base" using r(3) by simp
qed

lemma set_fold_set_add_if:
  "set (fold (\<lambda>n acc. if p n then set_add acc n else acc) xs acc) = {n \<in> set xs. p n} \<union> set acc"
  by (induction xs arbitrary: acc) auto

lemma set_fold_set_add:
  "set (fold (\<lambda>n acc. set_add acc n) xs acc) = set xs \<union> set acc"
  by (induction xs arbitrary: acc) auto

lemma baseConcat_pres:
  assumes inv: "heap_inv h" and b: "sub_alloc h base" "sub_alloc h after"
    and run: "baseConcat h nodeList base after = Inr (h', base')"
  shows "pres h h'" "sub_alloc h' base'" "initial base' = initial base"
proof -
  have "pres h h' \<and> sub_alloc h' base' \<and> initial base' = initial base"
  proof (cases "final base = []")
    case True
    with run have "h' = h" "base' = base" by (auto simp: baseConcat_def)
    with inv b show ?thesis by (simp add: pres_refl)
  next
    case nb: False
    show ?thesis
    proof (cases "final after = []")
      case True
      with nb run have e: "baseMakeEmpty h nodeList base = Inr (h', base')" by (simp add: baseConcat_def)
      from baseMakeEmpty_pres[OF inv e] b(1) show ?thesis
        by (auto simp: sub_alloc_def dest: pres_allocated)
    next
      case na: False
      define initialEdges where "initialEdges = node_out h (initial after)"
      from run nb na obtain h1 where
        f1: "forEach (final base)
               (\<lambda>baseFinal h. forEach initialEdges
                    (\<lambda>(to, characters) h. linkNodes h nodeList baseFinal to characters) h) h = Inr h1"
        and f2: "forEach initialEdges
                    (\<lambda>(to, characters) h. unlinkNodes h nodeList (initial after) to) h1 = Inr h'"
        and r: "base' = base\<lparr>final := fold (\<lambda>n acc. if n \<noteq> initial after then set_add acc n else acc)
                         (final after) (if initial after \<in> set (final after) then final base else [])\<rparr>"
        by (auto simp: baseConcat_def Let_def initialEdges_def split: sum.splits)
      have p1: "pres h h1"
      proof (rule forEach_rule[OF f1, where P = "pres h"])
        show "pres h h" by (rule pres_refl[OF inv])
      next
        fix bf s s'
        assume bf: "bf \<in> set (final base)" and Ps: "pres h s"
          and st: "forEach initialEdges (\<lambda>(to, characters) h. linkNodes h nodeList bf to characters) s = Inr s'"
        show "pres h s'"
        proof (rule forEach_rule[OF st, where P = "pres h"])
          show "pres h s" by (rule Ps)
        next
          fix x t t'
          assume x: "x \<in> set initialEdges" and Pt: "pres h t"
            and l: "(case x of (to, characters) \<Rightarrow> \<lambda>h. linkNodes h nodeList bf to characters) t = Inr t'"
          obtain to chars where xe: "x = (to, chars)" by (cases x)
          from out_edge[OF inv x[unfolded xe initialEdges_def]] have "allocated h to" "\<exists>c. has chars c" by auto
          moreover have "allocated h bf" using b(1) bf by (simp add: sub_alloc_def)
          ultimately have "pres t t'" using Pt l
            by (intro linkNodes_pres[of t bf to chars nodeList t']) (auto simp: xe dest: pres_inv pres_allocated)
          with Pt show "pres h t'" using pres_trans by blast
        qed
      qed
      have p2: "pres h1 h'"
        by (rule forEach_rule[OF f2, where P = "pres h1"])
           (auto intro: pres_refl pres_inv[OF p1] pres_trans unlinkNodes_pres dest: pres_inv)
      have p: "pres h h'" using p1 p2 pres_trans by blast
      have "set (final base') \<subseteq> set (final after) \<union> set (final base)"
        by (auto simp: r set_fold_set_add_if split: if_splits)
      then have "\<forall>f \<in> set (final base'). allocated h' f"
        using b p by (auto simp: sub_alloc_def dest: pres_allocated)
      moreover have "initial base' = initial base" by (simp add: r)
      ultimately show ?thesis using b p by (auto simp: sub_alloc_def dest: pres_allocated)
    qed
  qed
  then show "pres h h'" "sub_alloc h' base'" "initial base' = initial base" by auto
qed

lemma basePlus_pres:
  assumes inv: "heap_inv h" and b: "sub_alloc h base"
    and run: "basePlus h nodeList base = Inr h'"
  shows "pres h h'"
proof (rule forEach_rule[OF run[unfolded basePlus_def], where P = "pres h"])
  show "pres h h" by (rule pres_refl[OF inv])
next
  fix f s s'
  assume f: "f \<in> set (final base)" and Ps: "pres h s"
    and st: "(if f \<noteq> initial base
               then forEach (node_out s (initial base))
                      (\<lambda>(to, characters) h. linkNodes h nodeList f to characters) s
               else Inr s) = Inr s'"
  show "pres h s'"
  proof (cases "f \<noteq> initial base")
    case False
    with st Ps show ?thesis by simp
  next
    case True
    with st have g: "forEach (node_out s (initial base))
                      (\<lambda>(to, characters) h. linkNodes h nodeList f to characters) s = Inr s'" by simp
    have "pres s s'"
    proof (rule forEach_rule[OF g, where P = "pres s"])
      show "pres s s" using Ps by (auto intro: pres_refl dest: pres_inv)
    next
      fix x t t'
      assume x: "x \<in> set (node_out s (initial base))" and Pt: "pres s t"
        and l: "(case x of (to, characters) \<Rightarrow> \<lambda>h. linkNodes h nodeList f to characters) t = Inr t'"
      obtain to chars where xe: "x = (to, chars)" by (cases x)
      from out_edge[OF pres_inv[OF Ps] x[unfolded xe]] have "allocated s to" "\<exists>c. has chars c" by auto
      moreover have "allocated s f" using b f Ps by (auto simp: sub_alloc_def dest: pres_allocated)
      ultimately have "pres t t'" using Pt l
        by (intro linkNodes_pres[of t f to chars nodeList t']) (auto simp: xe dest: pres_inv pres_allocated)
      with Pt show "pres s t'" using pres_trans by blast
    qed
    with Ps show ?thesis using pres_trans by blast
  qed
qed

definition cache_alloc :: "heap \<Rightarrow> ('k \<times> NFANode) list \<Rightarrow> bool" where
  "cache_alloc h cache \<longleftrightarrow> (\<forall>(k, v) \<in> set cache. allocated h v)"

lemma cache_alloc_mono: "pres h h' \<Longrightarrow> cache_alloc h cache \<Longrightarrow> cache_alloc h' cache"
  unfolding cache_alloc_def using pres_allocated by fast

lemma set_update_subset: "set (AList.update k v al) \<subseteq> insert (k, v) (set al)"
  by (induction al) auto

lemma cached_createNode_pres:
  assumes inv: "heap_inv h" and nl: "nodeList < list_counter h" and c: "cache_alloc h cache"
    and run: "cached_createNode h nodeList cache k = (h', cache', v)"
  shows "pres h h'" "cache_alloc h' cache'" "allocated h' v"
proof -
  have "pres h h' \<and> cache_alloc h' cache' \<and> allocated h' v"
  proof (cases "map_of cache k")
    case None
    with run have cr: "createNode h nodeList = (h', v)" and c': "cache' = AList.update k v cache"
      by (auto simp: cached_createNode_def split: prod.splits)
    note p = createNode_pres[OF inv nl cr]
    have "cache_alloc h' cache'" using cache_alloc_mono[OF p(1) c] p(2)
      unfolding cache_alloc_def c' using set_update_subset[of k v cache] by auto
    with p show ?thesis by simp
  next
    case (Some w)
    with run have e: "h' = h" "cache' = cache" "v = w" by (auto simp: cached_createNode_def)
    from Some have "(k, w) \<in> set cache" by (rule map_of_SomeD)
    with c e inv show ?thesis by (auto simp: cache_alloc_def pres_refl)
  qed
  then show "pres h h'" "cache_alloc h' cache'" "allocated h' v" by auto
qed

lemma case_sum_Some_Inr:
  "(case m of Inl e \<Rightarrow> Some (Inl e) | Inr x \<Rightarrow> f x) = Some (Inr y) \<longleftrightarrow>
     (\<exists>x. m = Inr x \<and> f x = Some (Inr y))"
  by (cases m) auto

lemma case_sum_Inr:
  "(case m of Inl e \<Rightarrow> Inl e | Inr x \<Rightarrow> f x) = Inr y \<longleftrightarrow> (\<exists>x. m = Inr x \<and> f x = Inr y)"
  by (cases m) auto

lemma rbind_prod_Some_Inr:
  "rbind m (\<lambda>(a, b). f a b) = Some (Inr y) \<longleftrightarrow>
     (\<exists>a b. m = Some (Inr (a, b)) \<and> f a b = Some (Inr y))"
  by (auto simp: rbind_def split: option.splits sum.splits)

lemma rbind_prod3_Some_Inr:
  "rbind m (\<lambda>(a, b, c). f a b c) = Some (Inr y) \<longleftrightarrow>
     (\<exists>a b c. m = Some (Inr (a, b, c)) \<and> f a b c = Some (Inr y))"
  by (auto simp: rbind_def split: option.splits sum.splits)

lemma case_sum_prod_Inr:
  "(case m of Inl e \<Rightarrow> Inl e | Inr (a, b) \<Rightarrow> f a b) = Inr y \<longleftrightarrow>
     (\<exists>a b. m = Inr (a, b) \<and> f a b = Inr y)"
  by (cases m) auto

lemma case_sum_prod_Some_Inr:
  "(case m of Inl e \<Rightarrow> Some (Inl e) | Inr (a, b) \<Rightarrow> f a b) = Some (Inr y) \<longleftrightarrow>
     (\<exists>a b. m = Inr (a, b) \<and> f a b = Some (Inr y))"
  by (cases m) auto

definition copy_state_ok :: "heap \<Rightarrow> nat \<Rightarrow> heap \<times> (NFANode \<times> NFANode) list \<times> NFANode list \<Rightarrow> bool" where
  "copy_state_ok h0 nodeList s \<longleftrightarrow>
     (case s of (h, cache, fin) \<Rightarrow> pres h0 h \<and> cache_alloc h cache \<and> (\<forall>f \<in> set fin. allocated h f))"

lemma localCopy_visit_pres:
  assumes nl: "nodeList < list_counter h0" and ok: "copy_state_ok h0 nodeList s"
    and run: "localCopy_visit nodeList toCopy node s = Inr (s', out)"
  shows "copy_state_ok h0 nodeList s'"
proof -
  obtain h cache fin where s: "s = (h, cache, fin)" by (cases s)
  from ok have p: "pres h0 h" and c: "cache_alloc h cache" and f: "\<forall>f \<in> set fin. allocated h f"
    by (auto simp: copy_state_ok_def s)
  obtain h1 cache1 tr where cc: "cached_createNode h nodeList cache node = (h1, cache1, tr)"
    by (cases "cached_createNode h nodeList cache node")
  note r1 = cached_createNode_pres[OF pres_inv[OF p] pres_list[OF p nl] c cc]
  define fin1 where "fin1 = (if node \<in> set (final toCopy) then set_add fin tr else fin)"
  from run have "\<exists>h4 cache4. forEach (node_out h1 node)
          (\<lambda>(to, characters) (h, cache).
             case cached_createNode h nodeList cache to of (h2, cache2, t) \<Rightarrow>
               (case linkNodes h2 nodeList tr t characters of
                  Inl e \<Rightarrow> Inl e
                | Inr h3 \<Rightarrow> Inr (h3, cache2)))
          (h1, cache1) = Inr (h4, cache4)
        \<and> Inr ((h4, cache4, fin1), map fst (node_out h4 node)) = (Inr (s', out) :: error + _)"
    unfolding localCopy_visit_def s prod.case cc Let_def case_sum_prod_Inr fin1_def .
  then obtain h4 cache4 where
    g: "forEach (node_out h1 node)
          (\<lambda>(to, characters) (h, cache).
             case cached_createNode h nodeList cache to of (h2, cache2, t) \<Rightarrow>
               (case linkNodes h2 nodeList tr t characters of
                  Inl e \<Rightarrow> Inl e
                | Inr h3 \<Rightarrow> Inr (h3, cache2)))
          (h1, cache1) = Inr (h4, cache4)"
    and s': "s' = (h4, cache4, fin1)"
    by auto
  define P where "P = (\<lambda>(t :: heap, ca :: (NFANode \<times> NFANode) list). pres h1 t \<and> cache_alloc t ca)"
  have "P (h4, cache4)"
  proof (rule forEach_rule[OF g, where P = P])
    show "P (h1, cache1)" using r1 by (auto simp: P_def intro: pres_refl dest: pres_inv)
  next
    fix x t t'
    assume x: "x \<in> set (node_out h1 node)" and Pt: "P t"
      and st: "(case x of (to, characters) \<Rightarrow> \<lambda>(h, cache).
             case cached_createNode h nodeList cache to of (h2, cache2, t) \<Rightarrow>
               (case linkNodes h2 nodeList tr t characters of
                  Inl e \<Rightarrow> Inl e
                | Inr h3 \<Rightarrow> Inr (h3, cache2))) t = Inr t'"
    obtain to chars where xe: "x = (to, chars)" by (cases x)
    obtain ht ct where t: "t = (ht, ct)" by (cases t)
    from Pt have pt: "pres h1 ht" and ct: "cache_alloc ht ct" by (auto simp: P_def t)
    obtain h2 cache2 tt where c2: "cached_createNode ht nodeList ct to = (h2, cache2, tt)"
      by (cases "cached_createNode ht nodeList ct to")
    from st have "(case linkNodes h2 nodeList tr tt chars of
                  Inl e \<Rightarrow> Inl e
                | Inr h3 \<Rightarrow> Inr (h3, cache2)) = Inr t'"
      unfolding xe t prod.case c2 .
    then obtain h3 where l: "linkNodes h2 nodeList tr tt chars = Inr h3" and t': "t' = (h3, cache2)"
      unfolding case_sum_Inr by auto
    have nl1: "nodeList < list_counter ht"
      using pres_list[OF pt pres_list[OF r1(1) pres_list[OF p nl]]] .
    note r2 = cached_createNode_pres[OF pres_inv[OF pt] nl1 ct c2]
    from out_edge[OF pres_inv[OF r1(1)] x[unfolded xe]] have hc: "\<exists>c. has chars c" by auto
    have "allocated h2 tr" using r1(3) pt r2(1) by (auto dest: pres_allocated)
    then have p3: "pres h2 h3" using r2 hc l
      by (intro linkNodes_pres[of h2 tr tt chars nodeList h3]) (auto dest: pres_inv)
    moreover have "pres h1 h3" using pt r2(1) p3 pres_trans by blast
    moreover have "cache_alloc h3 cache2" using cache_alloc_mono[OF p3 r2(2)] .
    ultimately show "P t'" by (simp add: P_def t')
  qed
  then have p4: "pres h1 h4" and c4: "cache_alloc h4 cache4" by (auto simp: P_def)
  have p14: "pres h h4" using r1(1) p4 pres_trans by blast
  have "\<forall>f \<in> set fin1. allocated h4 f"
    using f r1(3) p14 p4 by (auto simp: fin1_def dest: pres_allocated)
  moreover have "pres h0 h4" using p p14 pres_trans by blast
  ultimately show ?thesis using c4 by (simp add: copy_state_ok_def s')
qed

lemma localCopy_pres:
  assumes inv: "heap_inv h" and nl: "nodeList < list_counter h"
    and run: "localCopy h nodeList toCopy = Some (Inr (h', copy))"
  shows "pres h h'" "sub_alloc h' copy"
proof -
  obtain h1 init where cr: "createNode h nodeList = (h1, init)" by (cases "createNode h nodeList")
  note r1 = createNode_pres[OF inv nl cr]
  from run cr obtain h2 cache fin where
    d: "DFS (initial toCopy) (localCopy_visit nodeList toCopy) (h1, [(initial toCopy, init)], [])
          = Some (Inr (h2, cache, fin))"
    and r: "h' = h2" "copy = \<lparr>initial = init, final = fin\<rparr>"
    by (auto simp: localCopy_def rbind_Some_Inr)
  have "copy_state_ok h1 nodeList (h2, cache, fin)"
  proof (rule DFS_rule[OF d, where P = "copy_state_ok h1 nodeList"])
    show "copy_state_ok h1 nodeList (h1, [(initial toCopy, init)], [])"
      using r1 by (auto simp: copy_state_ok_def cache_alloc_def intro: pres_refl dest: pres_inv)
  qed (rule localCopy_visit_pres[OF pres_list[OF r1(1) nl]])
  then have p: "pres h1 h2" and f: "\<forall>f \<in> set fin. allocated h2 f"
    by (auto simp: copy_state_ok_def)
  show "pres h h'" using p r r1(1) pres_trans by blast
  have "allocated h2 init" using r1(2) p by (rule pres_allocated[rotated])
  with f show "sub_alloc h' copy" by (simp add: r sub_alloc_def)
qed

lemma repeat_loop_pres:
  assumes nl: "nodeList < list_counter h"
    and "heap_inv h" "sub_alloc h base" "sub_alloc h copy" "\<forall>f \<in> set realFinal. allocated h f"
    and "repeat_loop k nodeList copy (h, base, realFinal) = Some (Inr (h', base', realFinal'))"
  shows "pres h h' \<and> sub_alloc h' base' \<and> initial base' = initial base
     \<and> (\<forall>f \<in> set realFinal'. allocated h' f)"
  using assms
proof (induction k arbitrary: h base realFinal)
  case 0
  then show ?case by (auto intro: pres_refl)
next
  case (Suc k)
  from Suc.prems(6) obtain h1 c h2 base2 where
    lc: "localCopy h nodeList copy = Some (Inr (h1, c))"
    and bc: "baseConcat h1 nodeList base c = Inr (h2, base2)"
    and rest: "repeat_loop k nodeList copy
        (h2, base2, fold (\<lambda>f acc. set_add acc f) (final base2) realFinal) = Some (Inr (h', base', realFinal'))"
    by (auto simp: rbind_Some_Inr case_sum_Some_Inr)
  note p1 = localCopy_pres[OF Suc.prems(2) Suc.prems(1) lc]
  note p2 = baseConcat_pres[OF pres_inv[OF p1(1)] sub_alloc_mono[OF p1(1) Suc.prems(3)] p1(2) bc]
  have p12: "pres h h2" using p1(1) p2(1) pres_trans by blast
  have rf: "\<forall>f\<in>set (fold (\<lambda>f acc. set_add acc f) (final base2) realFinal). allocated h2 f"
    using Suc.prems(5) p2(2) p12 by (auto simp: set_fold_set_add sub_alloc_def dest: pres_allocated)
  from Suc.IH[OF pres_list[OF p12 Suc.prems(1)] pres_inv[OF p12] p2(2) sub_alloc_mono[OF p12 Suc.prems(4)] rf rest]
  show ?case using p12 p2(3) pres_trans by auto
qed

lemma baseRepeat_pres:
  assumes inv: "heap_inv h" and nl: "nodeList < list_counter h" and b: "sub_alloc h base"
    and run: "baseRepeat h nodeList base n = Some (Inr (h', base'))"
  shows "pres h h'" "sub_alloc h' base'" "initial base' = initial base"
proof -
  note run0 = run[unfolded baseRepeat_def]
  have "pres h h' \<and> sub_alloc h' base' \<and> initial base' = initial base"
  proof (cases "n = 0")
    case True
    from run0[unfolded if_P[OF True]] obtain h1 base1 where e: "baseMakeEmpty h nodeList base = Inr (h1, base1)"
      and r: "h' = h1" "base' = base1\<lparr>final := set_add (final base1) (initial base1)\<rparr>"
      by (auto simp: case_sum_prod_Some_Inr)
    from baseMakeEmpty_pres[OF inv e] b show ?thesis
      by (auto simp: r sub_alloc_def dest: pres_allocated)
  next
    case c0: False
    note run1 = run0[unfolded if_not_P[OF c0]]
    show ?thesis
    proof (cases "n = 1")
      case True
      from run1[unfolded if_P[OF True]] have "h' = h" "base' = base" by auto
      with inv b show ?thesis by (simp add: pres_refl)
    next
      case c1: False
      note run2 = run1[unfolded if_not_P[OF c1]]
      show ?thesis
      proof (cases "length (final base) = 1 \<and> initial base \<in> set (final base)")
        case True
        from run2[unfolded if_P[OF True]] have "h' = h" "base' = base" by auto
        with inv b show ?thesis by (simp add: pres_refl)
      next
        case c2: False
        note run3 = run2[unfolded if_not_P[OF c2]]
        show ?thesis
        proof (cases "length (final base) = 0")
          case True
          from run3[unfolded if_P[OF True]] have "h' = h" "base' = base" by auto
          with inv b show ?thesis by (simp add: pres_refl)
        next
          case c3: False
          note run4 = run3[unfolded if_not_P[OF c3]]
          show ?thesis
          proof (cases "initial base \<notin> set (final base)")
            case True
            from run4[unfolded if_P[OF True]] obtain h1 copy h2 base2 rf where
              lc: "localCopy h nodeList base = Some (Inr (h1, copy))"
              and rl: "repeat_loop (n - 2) nodeList copy (h1, base, []) = Some (Inr (h2, base2, rf))"
              and bc: "baseConcat h2 nodeList base2 copy = Inr (h', base')"
              unfolding rbind_prod_Some_Inr rbind_prod3_Some_Inr by auto
            note p1 = localCopy_pres[OF inv nl lc]
            from repeat_loop_pres[OF pres_list[OF p1(1) nl] pres_inv[OF p1(1)] sub_alloc_mono[OF p1(1) b] p1(2) _ rl]
            have p2: "pres h1 h2" "sub_alloc h2 base2" "initial base2 = initial base" by auto
            note p3 = baseConcat_pres[OF pres_inv[OF p2(1)] p2(2) sub_alloc_mono[OF p2(1) p1(2)] bc]
            have "pres h h'" using p1(1) p2(1) p3(1) pres_trans by blast
            with p2 p3 show ?thesis by simp
          next
            case False
            define base0 where "base0 = base\<lparr>final := set_delete (final base) (initial base)\<rparr>"
            from run4[unfolded if_not_P[OF False] Let_def, folded base0_def]
            obtain h1 copy h2 base2 rf h3 base3 where
              lc: "localCopy h nodeList base0 = Some (Inr (h1, copy))"
              and rl: "repeat_loop (n - 2) nodeList copy (h1, base0, final base) = Some (Inr (h2, base2, rf))"
              and bc: "baseConcat h2 nodeList base2 copy = Inr (h3, base3)"
              and r: "h' = h3" "base' = base3\<lparr>final := fold (\<lambda>f acc. set_add acc f) (final base3) rf\<rparr>"
              unfolding rbind_prod_Some_Inr rbind_prod3_Some_Inr by (auto simp: case_sum_prod_Some_Inr)
            have b0: "sub_alloc h base0" using b by (auto simp: base0_def sub_alloc_def)
            note p1 = localCopy_pres[OF inv nl lc]
            have rf0: "\<forall>f \<in> set (final base). allocated h1 f"
              using b p1(1) by (auto simp: sub_alloc_def dest: pres_allocated)
            from repeat_loop_pres[OF pres_list[OF p1(1) nl] pres_inv[OF p1(1)] sub_alloc_mono[OF p1(1) b0] p1(2) rf0 rl]
            have p2: "pres h1 h2" "sub_alloc h2 base2" "initial base2 = initial base0"
              "\<forall>f \<in> set rf. allocated h2 f" by auto
            note p3 = baseConcat_pres[OF pres_inv[OF p2(1)] p2(2) sub_alloc_mono[OF p2(1) p1(2)] bc]
            have "sub_alloc h' base'" using p3(1,2) p2(4)
              by (auto simp: r sub_alloc_def set_fold_set_add dest: pres_allocated)
            moreover have "pres h h'" using p1(1) p2(1) p3(1) pres_trans r by blast
            moreover have "initial base' = initial base" using p3(3) p2(3) by (simp add: r base0_def)
            ultimately show ?thesis by simp
          qed
        qed
      qed
    qed
  qed
  then show "pres h h'" "sub_alloc h' base'" "initial base' = initial base" by auto
qed

section \<open>The facade operations keep the invariant\<close>

lemma baseQuantify_pres:
  assumes inv: "heap_inv h" and nl: "nodeList < list_counter h" and b: "sub_alloc h base"
    and run: "baseQuantify h nodeList base min0 max0 = Some (Inr (h', base'))"
  shows "pres h h'" "sub_alloc h' base'" "initial base' = initial base"
proof -
  define min1 where "min1 = (if initial base \<in> set (final base) then 0 else min0)"
  define base1 where "base1 = (if initial base \<notin> set (final base) \<and> min0 = 0
                      then base\<lparr>final := set_add (final base) (initial base)\<rparr> else base)"
  have b1: "sub_alloc h base1" "initial base1 = initial base"
    using b by (auto simp: base1_def sub_alloc_def)
  have "pres h h' \<and> sub_alloc h' base' \<and> initial base' = initial base"
  proof (cases "max0 = Some 0")
    case True
    with run obtain h1 bb where e: "baseMakeEmpty h nodeList base = Inr (h1, bb)"
      and r: "h' = h1" "base' = bb\<lparr>final := set_add (final bb) (initial bb)\<rparr>"
      by (auto simp: baseQuantify_def case_sum_Some_Inr)
    from baseMakeEmpty_pres[OF inv e] b show ?thesis
      by (auto simp: r sub_alloc_def dest: pres_allocated)
  next
    case n0: False
    have "baseQuantify h nodeList base min0 max0 =
      (if max0 = Some 0 then
        (case baseMakeEmpty h nodeList base of
           Inl e \<Rightarrow> Some (Inl e)
         | Inr (h1, base1) \<Rightarrow> Some (Inr (h1, base1\<lparr>final := set_add (final base1) (initial base1)\<rparr>)))
      else (if max0 = Some 1 then Some (Inr (h, base1))
            else if Some min1 = max0 then baseRepeat h nodeList base1 min1
            else (case max0 of
                    Some mx \<Rightarrow>
                      rbind (localCopy h nodeList base1)
                        (\<lambda>(h1, copy).
                           rbind (baseRepeat h1 nodeList
                                    (copy\<lparr>final := set_add (final copy) (initial copy)\<rparr>) (mx - min1))
                             (\<lambda>(h2, copy2).
                                rbind (baseRepeat h2 nodeList base1 min1)
                                  (\<lambda>(h3, base3). Some (baseConcat h3 nodeList base3 copy2))))
                  | None \<Rightarrow>
                      if min1 > 1 then
                        rbind (localCopy h nodeList base1)
                          (\<lambda>(h1, copy).
                             case basePlus h1 nodeList copy of
                               Inl e \<Rightarrow> Some (Inl e)
                             | Inr h2 \<Rightarrow>
                                 rbind (baseRepeat h2 nodeList base1 (min1 - 1))
                                   (\<lambda>(h3, base3). Some (baseConcat h3 nodeList base3 copy)))
                      else (case basePlus h nodeList base1 of
                              Inl e \<Rightarrow> Some (Inl e)
                            | Inr h1 \<Rightarrow> Some (Inr (h1, base1))))))"
      unfolding baseQuantify_def Let_def min1_def base1_def by (rule refl)
    with run n0 have run1: "(if max0 = Some 1 then Some (Inr (h, base1))
            else if Some min1 = max0 then baseRepeat h nodeList base1 min1
            else (case max0 of
                    Some mx \<Rightarrow>
                      rbind (localCopy h nodeList base1)
                        (\<lambda>(h1, copy).
                           rbind (baseRepeat h1 nodeList
                                    (copy\<lparr>final := set_add (final copy) (initial copy)\<rparr>) (mx - min1))
                             (\<lambda>(h2, copy2).
                                rbind (baseRepeat h2 nodeList base1 min1)
                                  (\<lambda>(h3, base3). Some (baseConcat h3 nodeList base3 copy2))))
                  | None \<Rightarrow>
                      if min1 > 1 then
                        rbind (localCopy h nodeList base1)
                          (\<lambda>(h1, copy).
                             case basePlus h1 nodeList copy of
                               Inl e \<Rightarrow> Some (Inl e)
                             | Inr h2 \<Rightarrow>
                                 rbind (baseRepeat h2 nodeList base1 (min1 - 1))
                                   (\<lambda>(h3, base3). Some (baseConcat h3 nodeList base3 copy)))
                      else (case basePlus h nodeList base1 of
                              Inl e \<Rightarrow> Some (Inl e)
                            | Inr h1 \<Rightarrow> Some (Inr (h1, base1))))) = Some (Inr (h', base'))"
      by (simp only: if_False)
    show ?thesis
    proof (cases "max0 = Some 1")
      case True
      from run1[unfolded if_P[OF True]] have "h' = h" "base' = base1" by auto
      with b1 inv show ?thesis by (simp add: pres_refl)
    next
      case n1: False
      note run2 = run1[unfolded if_not_P[OF n1]]
      show ?thesis
      proof (cases "Some min1 = max0")
        case True
        note run3 = run2[unfolded if_P[OF True]]
        from baseRepeat_pres[OF inv nl b1(1) run3] b1(2) show ?thesis by simp
      next
        case ne: False
        note run3 = run2[unfolded if_not_P[OF ne]]
        show ?thesis
        proof (cases max0)
          case (Some mx)
          from run3 have "rbind (localCopy h nodeList base1)
                        (\<lambda>(h1, copy).
                           rbind (baseRepeat h1 nodeList
                                    (copy\<lparr>final := set_add (final copy) (initial copy)\<rparr>) (mx - min1))
                             (\<lambda>(h2, copy2).
                                rbind (baseRepeat h2 nodeList base1 min1)
                                  (\<lambda>(h3, base3). Some (baseConcat h3 nodeList base3 copy2))))
              = Some (Inr (h', base'))"
            unfolding Some by (simp only: option.case)
          then obtain h1 copy h2 copy2 h3 base3 where
            lc: "localCopy h nodeList base1 = Some (Inr (h1, copy))"
            and r1: "baseRepeat h1 nodeList (copy\<lparr>final := set_add (final copy) (initial copy)\<rparr>) (mx - min1)
                = Some (Inr (h2, copy2))"
            and r2: "baseRepeat h2 nodeList base1 min1 = Some (Inr (h3, base3))"
            and bc: "baseConcat h3 nodeList base3 copy2 = Inr (h', base')"
            unfolding rbind_prod_Some_Inr by auto
          note p1 = localCopy_pres[OF inv nl lc]
          have c1: "sub_alloc h1 (copy\<lparr>final := set_add (final copy) (initial copy)\<rparr>)"
            using p1(2) by (auto simp: sub_alloc_def)
          note p2 = baseRepeat_pres[OF pres_inv[OF p1(1)] pres_list[OF p1(1) nl] c1 r1]
          have p12: "pres h h2" using p1(1) p2(1) pres_trans by blast
          note p3 = baseRepeat_pres[OF pres_inv[OF p2(1)] pres_list[OF p12 nl] sub_alloc_mono[OF p12 b1(1)] r2]
          note p4 = baseConcat_pres[OF pres_inv[OF p3(1)] p3(2) sub_alloc_mono[OF p3(1) p2(2)] bc]
          have "pres h h'" using p12 p3(1) p4(1) pres_trans by blast
          with p3 p4 b1(2) show ?thesis by simp
        next
          case None
          note run4 = run3[unfolded None option.case]
          show ?thesis
          proof (cases "min1 > 1")
            case True
            from run4 have "rbind (localCopy h nodeList base1)
                          (\<lambda>(h1, copy).
                             case basePlus h1 nodeList copy of
                               Inl e \<Rightarrow> Some (Inl e)
                             | Inr h2 \<Rightarrow>
                                 rbind (baseRepeat h2 nodeList base1 (min1 - 1))
                                   (\<lambda>(h3, base3). Some (baseConcat h3 nodeList base3 copy)))
                = Some (Inr (h', base'))"
              unfolding if_P[OF True] .
            then obtain h1 copy h2 h3 base3 where
              lc: "localCopy h nodeList base1 = Some (Inr (h1, copy))"
              and bp: "basePlus h1 nodeList copy = Inr h2"
              and r2: "baseRepeat h2 nodeList base1 (min1 - 1) = Some (Inr (h3, base3))"
              and bc: "baseConcat h3 nodeList base3 copy = Inr (h', base')"
              unfolding rbind_prod_Some_Inr case_sum_Some_Inr by auto
            note p1 = localCopy_pres[OF inv nl lc]
            note p2 = basePlus_pres[OF pres_inv[OF p1(1)] p1(2) bp]
            have p12: "pres h h2" using p1(1) p2 pres_trans by blast
            note p3 = baseRepeat_pres[OF pres_inv[OF p2] pres_list[OF p12 nl] sub_alloc_mono[OF p12 b1(1)] r2]
            have c3: "sub_alloc h3 copy" using sub_alloc_mono[OF p3(1) sub_alloc_mono[OF p2 p1(2)]] .
            note p4 = baseConcat_pres[OF pres_inv[OF p3(1)] p3(2) c3 bc]
            have "pres h h'" using p12 p3(1) p4(1) pres_trans by blast
            with p3 p4 b1(2) show ?thesis by simp
          next
            case False
            from run4 have "(case basePlus h nodeList base1 of
                              Inl e \<Rightarrow> Some (Inl e)
                            | Inr h1 \<Rightarrow> Some (Inr (h1, base1))) = Some (Inr (h', base'))"
              unfolding if_not_P[OF False] .
            then have bp: "basePlus h nodeList base1 = Inr h'" and r: "base' = base1"
              by (auto simp: case_sum_Some_Inr)
            note p = basePlus_pres[OF inv b1(1) bp]
            with b1 r show ?thesis using sub_alloc_mono by auto
          qed
        qed
      qed
    qed
  qed
  then show "pres h h'" "sub_alloc h' base'" "initial base' = initial base" by auto
qed

lemma heap_inv_final: "heap_inv h \<Longrightarrow> f \<in> set (list_final h l) \<Longrightarrow> allocated h f"
  unfolding heap_inv_def by blast

lemma heap_inv_initial: "heap_inv h \<Longrightarrow> l < list_counter h \<Longrightarrow> allocated h (list_initial l)"
  unfolding heap_inv_def allocated_def list_initial_def by simp

lemma asSubList_alloc: "heap_inv h \<Longrightarrow> l < list_counter h \<Longrightarrow> sub_alloc h (asSubList h l)"
  by (simp add: sub_alloc_def asSubList_def heap_inv_final heap_inv_initial)

lemma setFinal_pres:
  assumes p: "pres h h'" and l: "l < list_counter h" and b: "sub_alloc h' base"
  shows "pres h (setFinal l (h', base))" "list_final (setFinal l (h', base)) l = final base"
proof -
  define k where "k = h'\<lparr>list_final := (list_final h')(l := final base)\<rparr>"
  from p have inv: "heap_inv h'" and le: "heap_le h h'" by (auto simp: pres_def)
  from le l have l': "l < list_counter h'" by (auto simp: heap_le_def)
  have al: "allocated k = allocated h'" by (simp add: allocated_def fun_eq_iff k_def)
  have same: "node_out k = node_out h'" "node_in k = node_in h'" "nodeCounter k = nodeCounter h'"
    "list_counter k = list_counter h'" by (simp_all add: k_def)
  have fin: "list_final k x = (if x = l then final base else list_final h' x)" for x
    by (simp add: k_def)
  have 1: "adj_symmetric k" using inv by (simp add: heap_inv_def adj_symmetric_def same)
  have 2: "\<forall>n. \<not> allocated k n \<longrightarrow> node_out k n = [] \<and> node_in k n = []"
    using inv unfolding al same by (simp add: heap_inv_def)
  have 3: "\<forall>x y. map_of (node_out k x) y \<noteq> None \<longrightarrow> node_list y = node_list x"
    using inv unfolding same by (simp add: heap_inv_def)
  have 4: "\<forall>n. distinct (map fst (node_out k n)) \<and> distinct (map fst (node_in k n))"
    using inv unfolding same by (simp add: heap_inv_def)
  have 5: "\<forall>x y S. map_of (node_out k x) y = Some S \<longrightarrow> (\<exists>c. has S c)"
    using inv unfolding same by (simp add: heap_inv_def)
  have 6: "\<forall>x. \<forall>f \<in> set (list_final k x). allocated k f"
    using inv b unfolding al fin by (simp add: heap_inv_def sub_alloc_def)
  have 7: "\<forall>x. (x < list_counter k \<longrightarrow> 0 < nodeCounter k x)
            \<and> (list_counter k \<le> x \<longrightarrow> nodeCounter k x = 0 \<and> list_final k x = [])"
    using inv l' unfolding same fin by (simp add: heap_inv_def)
  from 1 2 3 4 5 6 7 have "heap_inv k" unfolding heap_inv_def by blast
  moreover have "heap_le h k" using le by (simp add: heap_le_def same)
  ultimately show "pres h (setFinal l (h', base))" by (simp add: setFinal_def pres_def k_def)
  show "list_final (setFinal l (h', base)) l = final base" by (simp add: setFinal_def)
qed

lemma NFA_union_pres:
  assumes inv: "heap_inv h" and l: "nodes this < list_counter h" "nodes nfa < list_counter h"
    and run: "NFA_union h this nfa = Some (Inr h')"
  shows "pres h h'"
proof (cases "nodes nfa = nodes this")
  case True
  with run inv show ?thesis by (simp add: NFA_union_def pres_refl)
next
  case False
  with run have "(case checkOptionsCompatibility (options this) (options nfa) of
             Inl e \<Rightarrow> Some (Inl e)
           | Inr _ \<Rightarrow>
               rbind (localCopy h (nodes this) (asSubList h (nodes nfa)))
                 (\<lambda>(h1, alternative).
                    case baseUnion h1 (nodes this) (asSubList h1 (nodes this)) alternative of
                      Inl e \<Rightarrow> Some (Inl e)
                    | Inr r \<Rightarrow> Some (Inr (setFinal (nodes this) r)))) = Some (Inr h')"
    by (simp only: NFA_union_def if_False)
  then obtain x where lc0: "localCopy h (nodes this) (asSubList h (nodes nfa)) = Some (Inr x)"
    and rest: "(case x of (h1, alternative) \<Rightarrow>
                    case baseUnion h1 (nodes this) (asSubList h1 (nodes this)) alternative of
                      Inl e \<Rightarrow> Some (Inl e)
                    | Inr r \<Rightarrow> Some (Inr (setFinal (nodes this) r))) = Some (Inr h')"
    unfolding case_sum_Some_Inr rbind_Some_Inr by blast
  obtain h1 alt where x: "x = (h1, alt)" by (cases x)
  from rest obtain r where bu: "baseUnion h1 (nodes this) (asSubList h1 (nodes this)) alt = Inr r"
    and h': "h' = setFinal (nodes this) r"
    unfolding x prod.case case_sum_Some_Inr by auto
  obtain h2 base2 where r: "r = (h2, base2)" by (cases r)
  note p1 = localCopy_pres[OF inv l(1) lc0[unfolded x]]
  note p2 = baseUnion_pres[OF pres_inv[OF p1(1)] asSubList_alloc[OF pres_inv[OF p1(1)] pres_list[OF p1(1) l(1)]] p1(2) bu[unfolded r]]
  have "pres h h2" using p1(1) p2(1) pres_trans by blast
  from setFinal_pres(1)[OF this l(1) p2(2)] show ?thesis by (simp add: h' r)
qed

lemma quantify_pres:
  assumes inv: "heap_inv h" and l: "nodes this < list_counter h"
    and run: "quantify h this min0 max0 = Some (Inr h')"
  shows "pres h h'"
proof -
  from run have "rbind (baseQuantify h (nodes this) (asSubList h (nodes this))
                    (nat \<lfloor>min0\<rfloor>) (map_option (\<lambda>m. nat \<lfloor>m\<rfloor>) max0))
             (\<lambda>r. Some (Inr (setFinal (nodes this) r))) = Some (Inr h')"
    unfolding quantify_def by (simp split: if_splits)
  then obtain r where
    q: "baseQuantify h (nodes this) (asSubList h (nodes this)) (nat \<lfloor>min0\<rfloor>)
          (map_option (\<lambda>m. nat \<lfloor>m\<rfloor>) max0) = Some (Inr r)"
    and h': "h' = setFinal (nodes this) r"
    unfolding rbind_Some_Inr by auto
  obtain h2 base2 where r: "r = (h2, base2)" by (cases r)
  note p = baseQuantify_pres[OF inv l asSubList_alloc[OF inv l] q[unfolded r]]
  from setFinal_pres(1)[OF p(1) l p(2)] show ?thesis by (simp add: h' r)
qed

lemma NFA_concat_pres:
  assumes inv: "heap_inv h" and l: "nodes this < list_counter h" "nodes nfa < list_counter h"
    and run: "NFA_concat h this nfa = Some (Inr h')"
  shows "pres h h'"
proof (cases "nodes this = nodes nfa")
  case True
  with run have "quantify h this 2 (Some 2) = Some (Inr h')" by (simp add: NFA_concat_def)
  from quantify_pres[OF inv l(1) this] show ?thesis .
next
  case False
  with run have "(case checkOptionsCompatibility (options this) (options nfa) of
             Inl e \<Rightarrow> Some (Inl e)
           | Inr _ \<Rightarrow>
               (case baseConcat h (nodes this) (asSubList h (nodes this)) (asSubList h (nodes nfa)) of
                  Inl e \<Rightarrow> Some (Inl e)
                | Inr r \<Rightarrow> Some (Inr (setFinal (nodes this) r)))) = Some (Inr h')"
    by (simp only: NFA_concat_def if_False)
  then obtain r where
    bc: "baseConcat h (nodes this) (asSubList h (nodes this)) (asSubList h (nodes nfa)) = Inr r"
    and h': "h' = setFinal (nodes this) r"
    unfolding case_sum_Some_Inr by auto
  obtain h2 base2 where r: "r = (h2, base2)" by (cases r)
  note p = baseConcat_pres[OF inv asSubList_alloc[OF inv l(1)] asSubList_alloc[OF inv l(2)] bc[unfolded r]]
  from setFinal_pres(1)[OF p(1) l(1) p(2)] show ?thesis by (simp add: h' r)
qed

lemma NFA_copy_pres:
  assumes inv: "heap_inv h" and l: "nodes this < list_counter h"
    and run: "NFA_copy h this = Some (Inr (h', copy))"
  shows "pres h h'" "nodes copy < list_counter h'"
proof -
  obtain h1 nl where n: "new_NodeList h = (h1, nl)" by (cases "new_NodeList h")
  from run have "rbind (NFA_union h1 \<lparr>nodes = nl, options = options this\<rparr> this)
      (\<lambda>h2. Some (Inr (h2, \<lparr>nodes = nl, options = options this\<rparr>))) = Some (Inr (h', copy))"
    unfolding NFA_copy_def n prod.case Let_def .
  then have u: "NFA_union h1 \<lparr>nodes = nl, options = options this\<rparr> this = Some (Inr h')"
    and c: "copy = \<lparr>nodes = nl, options = options this\<rparr>"
    unfolding rbind_Some_Inr by auto
  note p1 = new_NodeList_pres[OF inv n]
  have p2: "pres h1 h'"
    using NFA_union_pres[OF pres_inv[OF p1(1)] _ _ u] p1(2) pres_list[OF p1(1) l] by simp
  show "pres h h'" using p1(1) p2 pres_trans by blast
  show "nodes copy < list_counter h'" using pres_list[OF p2 p1(2)] by (simp add: c)
qed

lemma has_union_ranges:
  "union_ranges cs rs = Inr cs' \<Longrightarrow> has cs' c \<longleftrightarrow> has cs c \<or> in_ranges c rs"
  by (auto simp: union_ranges_def has_in_ranges in_ranges_normalise in_ranges_append split: if_splits)

lemma union_ranges_single_inhabited:
  assumes "union_ranges cs [(lo, hi)] = Inr cs'"
  shows "\<exists>c. has cs' c"
proof -
  from assms have "lo \<le> hi" by (auto simp: union_ranges_def split: if_splits)
  then have "in_ranges lo [(lo, hi)]" by (simp add: in_ranges_Cons)
  with has_union_ranges[OF assms] show ?thesis by blast
qed

lemma find_Some_mem: "find P xs = Some x \<Longrightarrow> x \<in> set xs"
  by (induction xs) (auto split: if_splits)

lemma getNext_pres:
  assumes inv: "heap_inv h" and nl: "nodeList < list_counter h" and a: "allocated h node"
    and run: "getNext opts nodeList h node char = Inr (h', n)"
  shows "pres h h'" "allocated h' n"
proof -
  have "pres h h' \<and> allocated h' n"
  proof (cases "find (\<lambda>(to, chars). has chars \<lfloor>char\<rfloor>) (node_out h node)")
    case (Some e)
    obtain to chars where e: "e = (to, chars)" by (cases e)
    from run Some have "h' = h" "n = to" by (auto simp: getNext_def e split: if_splits)
    moreover from find_Some_mem[OF Some] have "(to, chars) \<in> set (node_out h node)" by (simp add: e)
    from out_edge(4)[OF inv this] have "allocated h to" .
    ultimately show ?thesis using inv by (simp add: pres_refl)
  next
    case None
    obtain h1 newNode where cr: "createNode h nodeList = (h1, newNode)" by (cases "createNode h nodeList")
    from run None cr obtain charSet where
      u: "union_ranges (cs_empty (maxCharacter opts)) [(\<lfloor>char\<rfloor>, \<lfloor>char\<rfloor>)] = Inr charSet"
      and l: "linkNodes h1 nodeList node newNode charSet = Inr h'" and n: "n = newNode"
      by (auto simp: getNext_def case_sum_Inr split: if_splits)
    note p1 = createNode_pres[OF inv nl cr]
    have p2: "pres h1 h'"
      using linkNodes_pres[OF pres_inv[OF p1(1)] pres_allocated[OF p1(1) a] p1(2) union_ranges_single_inhabited[OF u] l] .
    have "pres h h'" using p1(1) p2 pres_trans by blast
    moreover have "allocated h' n" using p2 p1(2) n by (auto dest: pres_allocated)
    ultimately show ?thesis by simp
  qed
  then show "pres h h'" "allocated h' n" by auto
qed

lemma add_word_pres:
  assumes inv: "heap_inv h" and nl: "nodeList < list_counter h"
    and run: "add_word opts nodeList word h = Inr h'"
  shows "pres h h'"
proof -
  from run obtain h1 node where
    f: "forEach word (\<lambda>charCode (h, node). getNext opts nodeList h node charCode)
          (h, list_initial nodeList) = Inr (h1, node)"
    and h': "h' = h1\<lparr>list_final := (list_final h1)(nodeList := set_add (list_final h1 nodeList) node)\<rparr>"
    unfolding add_word_def case_sum_prod_Inr by auto
  define P where "P = (\<lambda>(s :: heap, n :: NFANode). pres h s \<and> allocated s n)"
  have "P (h1, node)"
  proof (rule forEach_rule[OF f, where P = P])
    show "P (h, list_initial nodeList)"
      using inv nl by (simp add: P_def pres_refl heap_inv_initial)
  next
    fix c s s'
    assume Ps: "P s" and st: "(case s of (h, node) \<Rightarrow> getNext opts nodeList h node c) = Inr s'"
    obtain hs ns where s: "s = (hs, ns)" by (cases s)
    obtain hs' ns' where s': "s' = (hs', ns')" by (cases s')
    from Ps have p: "pres h hs" and a: "allocated hs ns" by (auto simp: P_def s)
    from st have g: "getNext opts nodeList hs ns c = Inr (hs', ns')" by (simp add: s s')
    note r = getNext_pres[OF pres_inv[OF p] pres_list[OF p nl] a g]
    have "pres h hs'" using p r(1) pres_trans by blast
    with r(2) show "P s'" by (simp add: P_def s')
  qed
  then have p: "pres h h1" and a: "allocated h1 node" by (auto simp: P_def)
  have sa: "sub_alloc h1 \<lparr>initial = list_initial nodeList, final = set_add (list_final h1 nodeList) node\<rparr>"
    using a heap_inv_final[OF pres_inv[OF p]] heap_inv_initial[OF pres_inv[OF p] pres_list[OF p nl]]
    by (auto simp: sub_alloc_def)
  from setFinal_pres(1)[OF p nl sa] show ?thesis by (simp add: h' setFinal_def)
qed

lemma fromWords_pres:
  assumes inv: "heap_inv h" and run: "fromWords h words opts = Inr (h', nfa)"
  shows "pres h h'" "nodes nfa < list_counter h'"
proof -
  obtain h0 nodeList where n: "new_NodeList h = (h0, nodeList)" by (cases "new_NodeList h")
  from run obtain h1 r where
    f: "forEach words (add_word opts nodeList) h0 = Inr h1"
    and o: "baseOptimizationReuseFinalStates h1 nodeList (asSubList h1 nodeList) = Inr r"
    and res: "h' = setFinal nodeList r" "nfa = \<lparr>nodes = nodeList, options = opts\<rparr>"
    unfolding fromWords_def n prod.case case_sum_Inr by auto
  obtain h2 base2 where r: "r = (h2, base2)" by (cases r)
  note p0 = new_NodeList_pres[OF inv n]
  have p1: "pres h0 h1"
  proof (rule forEach_rule[OF f, where P = "pres h0"])
    show "pres h0 h0" using p0(1) by (auto intro: pres_refl dest: pres_inv)
  next
    fix w s s'
    assume Ps: "pres h0 s" and st: "add_word opts nodeList w s = Inr s'"
    from add_word_pres[OF pres_inv[OF Ps] pres_list[OF Ps p0(2)] st] Ps
    show "pres h0 s'" using pres_trans by blast
  qed
  have nl1: "nodeList < list_counter h1" using pres_list[OF p1 p0(2)] .
  note p2 = baseOptimizationReuseFinalStates_pres[OF pres_inv[OF p1] asSubList_alloc[OF pres_inv[OF p1] nl1] o[unfolded r]]
  have p02: "pres h0 h2" using p1 p2(1) pres_trans by blast
  have "pres h0 h'" using setFinal_pres(1)[OF p02 p0(2) p2(2)] by (simp add: res r)
  then show "pres h h'" using p0(1) pres_trans by blast
  show "nodes nfa < list_counter h'" using pres_list[OF \<open>pres h0 h'\<close> p0(2)] by (simp add: res)
qed

subsection \<open>fromDFA\<close>

lemma invertCharMap_inhabited:
  assumes "invertCharMap charMap mx = Inr byNode" "(n, cs) \<in> set byNode"
  shows "\<exists>c. has cs c"
proof -
  define P where "P = (\<lambda>acc :: (DFANode \<times> CharSet) list. \<forall>(n, cs) \<in> set acc. \<exists>c. has cs c)"
  have "P byNode"
  proof (rule forEach_rule[OF assms(1)[unfolded invertCharMap_def], where P = P])
    show "P []" by (simp add: P_def)
  next
    fix x s s'
    assume Ps: "P s" and st: "(case x of (rg0, node) \<Rightarrow> \<lambda>byNode.
          (case union_ranges (case map_of byNode node of None \<Rightarrow> cs_empty mx | Some cs \<Rightarrow> cs) [rg0] of
            Inl e \<Rightarrow> Inl e
          | Inr cs \<Rightarrow> Inr (AList.update node cs byNode))) s = Inr s'"
    obtain rg0 node where x: "x = (rg0, node)" by (cases x)
    obtain lo hi where rg: "rg0 = (lo, hi)" by (cases rg0)
    from st obtain cs where u: "union_ranges (case map_of s node of None \<Rightarrow> cs_empty mx | Some cs \<Rightarrow> cs) [(lo, hi)] = Inr cs"
      and s': "s' = AList.update node cs s"
      unfolding x rg prod.case case_sum_Inr by auto
    from union_ranges_single_inhabited[OF u] Ps show "P s'"
      unfolding P_def s' using set_update_subset[of node cs s] by auto
  qed
  with assms(2) show ?thesis by (auto simp: P_def)
qed

definition dfa_state_ok :: "heap \<Rightarrow> heap \<times> (DFANode \<times> NFANode) list \<Rightarrow> bool" where
  "dfa_state_ok h0 s \<longleftrightarrow> (case s of (h, cache) \<Rightarrow> pres h0 h \<and> cache_alloc h cache)"

lemma fromDFA_visit_pres:
  assumes nl: "nodeList < list_counter h0" and ok: "dfa_state_ok h0 s"
    and run: "fromDFA_visit dfa nodeList dfaNode s = Inr (s', out)"
  shows "dfa_state_ok h0 s'"
proof -
  obtain h cache where s: "s = (h, cache)" by (cases s)
  from ok have p: "pres h0 h" and c: "cache_alloc h cache" by (auto simp: dfa_state_ok_def s)
  obtain h1 cache1 tr where cc: "cached_createNode h nodeList cache dfaNode = (h1, cache1, tr)"
    by (cases "cached_createNode h nodeList cache dfaNode")
  note r1 = cached_createNode_pres[OF pres_inv[OF p] pres_list[OF p nl] c cc]
  from run obtain byNode where iv: "invertCharMap (dfa_out dfa dfaNode) (dfa_maxCharacter dfa) = Inr byNode"
    and g: "forEach byNode
                        (\<lambda>(outDfaNode, charSet) (h, cache).
                           case cached_createNode h nodeList cache outDfaNode of (h2, cache2, t) \<Rightarrow>
                             (case linkNodes h2 nodeList tr t charSet of
                                Inl e \<Rightarrow> Inl e
                              | Inr h3 \<Rightarrow> Inr (h3, cache2)))
                        (h1, cache1) = Inr s'"
    unfolding fromDFA_visit_def s prod.case cc case_sum_Inr by auto
  define P where "P = (\<lambda>(t :: heap, ca :: (DFANode \<times> NFANode) list). pres h1 t \<and> cache_alloc t ca)"
  have "P s'"
  proof (rule forEach_rule[OF g, where P = P])
    show "P (h1, cache1)" using r1 by (simp add: P_def pres_refl[OF pres_inv])
  next
    fix x t t'
    assume x: "x \<in> set byNode" and Pt: "P t"
      and st: "(case x of (outDfaNode, charSet) \<Rightarrow> \<lambda>(h, cache).
                           case cached_createNode h nodeList cache outDfaNode of (h2, cache2, t) \<Rightarrow>
                             (case linkNodes h2 nodeList tr t charSet of
                                Inl e \<Rightarrow> Inl e
                              | Inr h3 \<Rightarrow> Inr (h3, cache2))) t = Inr t'"
    obtain to chars where xe: "x = (to, chars)" by (cases x)
    obtain ht ct where t: "t = (ht, ct)" by (cases t)
    from Pt have pt: "pres h1 ht" and ct: "cache_alloc ht ct" by (auto simp: P_def t)
    obtain h2 cache2 tt where c2: "cached_createNode ht nodeList ct to = (h2, cache2, tt)"
      by (cases "cached_createNode ht nodeList ct to")
    from st have "(case linkNodes h2 nodeList tr tt chars of
                  Inl e \<Rightarrow> Inl e
                | Inr h3 \<Rightarrow> Inr (h3, cache2)) = Inr t'"
      unfolding xe t prod.case c2 .
    then obtain h3 where l: "linkNodes h2 nodeList tr tt chars = Inr h3" and t': "t' = (h3, cache2)"
      unfolding case_sum_Inr by auto
    have nl1: "nodeList < list_counter ht"
      using pres_list[OF pt pres_list[OF r1(1) pres_list[OF p nl]]] .
    note r2 = cached_createNode_pres[OF pres_inv[OF pt] nl1 ct c2]
    from invertCharMap_inhabited[OF iv x[unfolded xe]] have hc: "\<exists>c. has chars c" .
    have "allocated h2 tr" using r1(3) pt r2(1) by (auto dest: pres_allocated)
    then have p3: "pres h2 h3" using r2 hc l
      by (intro linkNodes_pres[of h2 tr tt chars nodeList h3]) (auto dest: pres_inv)
    moreover have "pres h1 h3" using pt r2(1) p3 pres_trans by blast
    moreover have "cache_alloc h3 cache2" using cache_alloc_mono[OF p3 r2(2)] .
    ultimately show "P t'" by (simp add: P_def t')
  qed
  then obtain h4 cache4 where s': "s' = (h4, cache4)" and p4: "pres h1 h4" and c4: "cache_alloc h4 cache4"
    by (cases s') (auto simp: P_def)
  have "pres h0 h4" using p r1(1) p4 pres_trans by blast
  with c4 show ?thesis by (simp add: dfa_state_ok_def s')
qed

lemma fromDFA_pres:
  assumes inv: "heap_inv h" and run: "fromDFA h dfa = Some (Inr (h', nfa))"
  shows "pres h h'" "nodes nfa < list_counter h'"
proof -
  obtain h0 nodeList where n: "new_NodeList h = (h0, nodeList)" by (cases "new_NodeList h")
  note p0 = new_NodeList_pres[OF inv n]
  from run obtain cache where
    d: "DFS (dfa_initial dfa) (fromDFA_visit dfa nodeList) (h0, [(dfa_initial dfa, list_initial nodeList)])
          = Some (Inr (h', cache))"
    and res: "nfa = \<lparr>nodes = nodeList, options = \<lparr>maxCharacter = dfa_maxCharacter dfa\<rparr>\<rparr>"
    unfolding fromDFA_def n prod.case rbind_prod_Some_Inr by auto
  have "dfa_state_ok h0 (h', cache)"
  proof (rule DFS_rule[OF d, where P = "dfa_state_ok h0"])
    show "dfa_state_ok h0 (h0, [(dfa_initial dfa, list_initial nodeList)])"
      using p0 by (simp add: dfa_state_ok_def cache_alloc_def pres_refl[OF pres_inv])
  qed (rule fromDFA_visit_pres[OF p0(2)])
  then have p: "pres h0 h'" by (simp add: dfa_state_ok_def)
  show "pres h h'" using p0(1) p pres_trans by blast
  show "nodes nfa < list_counter h'" using pres_list[OF p p0(2)] by (simp add: res)
qed

fun elem_ok :: "Element \<Rightarrow> bool" and conc_ok :: "Concatenation \<Rightarrow> bool" where
  "elem_ok (Alternation alternatives) = (\<forall>c \<in> set alternatives. conc_ok c)"
| "elem_ok (Assertion alternatives) = True"
| "elem_ok (CharacterClass chars) = (isEmpty chars \<or> (\<exists>c. has chars c))"
| "elem_ok (Quantifier alternatives min0 max0) = (\<forall>c \<in> set alternatives. conc_ok c)"
| "conc_ok (Concatenation elements) = (\<forall>e \<in> set elements. elem_ok e)"

definition handle_post :: "heap \<Rightarrow> (error + (heap \<times> SubList)) option \<Rightarrow> bool" where
  "handle_post h r \<longleftrightarrow> (\<forall>h' sub. r = Some (Inr (h', sub)) \<longrightarrow> pres h h' \<and> sub_alloc h' sub)"

definition handle_pre :: "nat \<Rightarrow> heap \<times> SubList \<Rightarrow> bool" where
  "handle_pre nodeList s \<longleftrightarrow> heap_inv (fst s) \<and> nodeList < list_counter (fst s) \<and> sub_alloc (fst s) (snd s)"

lemma handle_postI:
  "(\<And>h' sub. r = Some (Inr (h', sub)) \<Longrightarrow> pres h h' \<and> sub_alloc h' sub) \<Longrightarrow> handle_post h r"
  by (simp add: handle_post_def)

lemma handle_postD:
  "handle_post h r \<Longrightarrow> r = Some (Inr (h', sub)) \<Longrightarrow> pres h h' \<and> sub_alloc h' sub"
  by (simp add: handle_post_def)

lemma handle_pres:
  "heap_inv h \<longrightarrow> nodeList < list_counter h \<longrightarrow> (\<forall>c \<in> set alts. conc_ok c) \<longrightarrow>
     handle_post h (handleAlternation opts nodeList alts h)"
  "handle_pre nodeList s \<longrightarrow> (\<forall>c \<in> set alts. conc_ok c) \<longrightarrow>
     handle_post (fst s) (handleAlternation_loop opts nodeList alts s)"
  "heap_inv h \<longrightarrow> nodeList < list_counter h \<longrightarrow> conc_ok c \<longrightarrow>
     handle_post h (handleConcatenation opts nodeList c h)"
  "handle_pre nodeList s \<longrightarrow> (\<forall>e \<in> set es. elem_ok e) \<longrightarrow>
     handle_post (fst s) (handleElements opts nodeList es s)"
  "handle_pre nodeList s \<longrightarrow> elem_ok e \<longrightarrow>
     handle_post (fst s) (handleElement opts nodeList e s)"
proof (induction opts nodeList alts h and opts nodeList alts s and opts nodeList c h
    and opts nodeList es s and opts nodeList e s
    rule: handleAlternation_handleAlternation_loop_handleConcatenation_handleElements_handleElement.induct)
  case (1 opts nodeList h)
  show ?case
  proof (intro impI handle_postI)
    fix h' sub
    assume inv: "heap_inv h" and nl: "nodeList < list_counter h"
      and r: "handleAlternation opts nodeList [] h = Some (Inr (h', sub))"
    obtain h1 n where cr: "createNode h nodeList = (h1, n)" by (cases "createNode h nodeList")
    from r cr have "h' = h1" "sub = \<lparr>initial = n, final = []\<rparr>" by auto
    with createNode_pres[OF inv nl cr] show "pres h h' \<and> sub_alloc h' sub" by (simp add: sub_alloc_def)
  qed
next
  case (2 opts nodeList c cs h)
  show ?case
  proof (intro impI handle_postI)
    fix h' sub
    assume inv: "heap_inv h" and nl: "nodeList < list_counter h" and ok: "\<forall>c \<in> set (c # cs). conc_ok c"
      and r: "handleAlternation opts nodeList (c # cs) h = Some (Inr (h', sub))"
    from r obtain x where a: "handleConcatenation opts nodeList c h = Some (Inr x)"
      and b: "handleAlternation_loop opts nodeList cs x = Some (Inr (h', sub))"
      by (auto simp: rbind_Some_Inr)
    obtain h1 base where x: "x = (h1, base)" by (cases x)
    from 2(1) inv nl ok a have p1: "pres h h1" "sub_alloc h1 base"
      by (auto simp: x dest: handle_postD)
    have "handle_pre nodeList x" using p1 nl by (auto simp: handle_pre_def x dest: pres_inv pres_list)
    with 2(2)[of x] ok b have "pres h1 h' \<and> sub_alloc h' sub" by (auto simp: x dest: handle_postD)
    with p1 show "pres h h' \<and> sub_alloc h' sub" using pres_trans by blast
  qed
next
  case (3 opts nodeList s)
  show ?case by (auto simp: handle_post_def handle_pre_def pres_refl)
next
  case (4 opts nodeList c cs s)
  show ?case
  proof (intro impI handle_postI)
    fix h' sub
    assume pre: "handle_pre nodeList s" and ok: "\<forall>c \<in> set (c # cs). conc_ok c"
      and r: "handleAlternation_loop opts nodeList (c # cs) s = Some (Inr (h', sub))"
    from pre have inv: "heap_inv (fst s)" and nl: "nodeList < list_counter (fst s)"
      and sa: "sub_alloc (fst s) (snd s)" by (auto simp: handle_pre_def)
    from r obtain h1 alt s' where a: "handleConcatenation opts nodeList c (fst s) = Some (Inr (h1, alt))"
      and u: "baseUnion h1 nodeList (snd s) alt = Inr s'"
      and b: "handleAlternation_loop opts nodeList cs s' = Some (Inr (h', sub))"
      unfolding handleAlternation_loop.simps rbind_prod_Some_Inr case_sum_Some_Inr by auto
    obtain h2 base2 where s': "s' = (h2, base2)" by (cases s')
    from 4(1) inv nl ok a have p1: "pres (fst s) h1" "sub_alloc h1 alt"
      by (auto dest: handle_postD)
    note p2 = baseUnion_pres[OF pres_inv[OF p1(1)] sub_alloc_mono[OF p1(1) sa] p1(2) u[unfolded s']]
    have p12: "pres (fst s) h2" using p1(1) p2(1) pres_trans by blast
    have "handle_pre nodeList s'" using p2 p12 nl by (auto simp: handle_pre_def s' dest: pres_inv pres_list)
    with 4(2)[OF u] ok b have "pres h2 h' \<and> sub_alloc h' sub" by (auto simp: s' dest: handle_postD)
    with p12 show "pres (fst s) h' \<and> sub_alloc h' sub" using pres_trans by blast
  qed
next
  case (5 opts nodeList elements h)
  show ?case
  proof (intro impI handle_postI)
    fix h' sub
    assume inv: "heap_inv h" and nl: "nodeList < list_counter h" and ok: "conc_ok (Concatenation elements)"
      and r: "handleConcatenation opts nodeList (Concatenation elements) h = Some (Inr (h', sub))"
    obtain h1 n where cr: "createNode h nodeList = (h1, n)" by (cases "createNode h nodeList")
    note p1 = createNode_pres[OF inv nl cr]
    from r cr have e: "handleElements opts nodeList elements (h1, \<lparr>initial = n, final = [n]\<rparr>) = Some (Inr (h', sub))"
      by simp
    have "handle_pre nodeList (h1, \<lparr>initial = n, final = [n]\<rparr>)"
      using p1 nl by (auto simp: handle_pre_def sub_alloc_def dest: pres_inv pres_list)
    with 5[OF cr[symmetric]] ok e have "pres h1 h' \<and> sub_alloc h' sub" by (auto dest: handle_postD)
    with p1(1) show "pres h h' \<and> sub_alloc h' sub" using pres_trans by blast
  qed
next
  case (6 opts nodeList s)
  show ?case by (auto simp: handle_post_def handle_pre_def pres_refl)
next
  case (7 opts nodeList e es s)
  show ?case
  proof (intro impI handle_postI)
    fix h' sub
    assume pre: "handle_pre nodeList s" and ok: "\<forall>e \<in> set (e # es). elem_ok e"
      and r: "handleElements opts nodeList (e # es) s = Some (Inr (h', sub))"
    show "pres (fst s) h' \<and> sub_alloc h' sub"
    proof (cases "length (final (snd s)) = 0")
      case True
      with r have "s = (h', sub)" by simp
      with pre show ?thesis by (auto simp: handle_pre_def pres_refl)
    next
      case False
      with r obtain x where a: "handleElement opts nodeList e s = Some (Inr x)"
        and b: "handleElements opts nodeList es x = Some (Inr (h', sub))"
        by (auto simp: rbind_Some_Inr)
      obtain h1 base where x: "x = (h1, base)" by (cases x)
      from 7(1)[OF False] pre ok a have p1: "pres (fst s) h1" "sub_alloc h1 base"
        by (auto simp: x dest: handle_postD)
      have "handle_pre nodeList x" using p1 pre
        by (auto simp: handle_pre_def x dest: pres_inv pres_list)
      with 7(2)[OF False, of x] ok b have "pres h1 h' \<and> sub_alloc h' sub"
        by (auto simp: x dest: handle_postD)
      with p1 show ?thesis using pres_trans by blast
    qed
  qed
next
  case (8 opts nodeList alternatives s)
  show ?case
  proof (intro impI handle_postI)
    fix h' sub
    assume pre: "handle_pre nodeList s" and ok: "elem_ok (Alternation alternatives)"
      and r: "handleElement opts nodeList (Alternation alternatives) s = Some (Inr (h', sub))"
    from pre have inv: "heap_inv (fst s)" and nl: "nodeList < list_counter (fst s)"
      and sa: "sub_alloc (fst s) (snd s)" by (auto simp: handle_pre_def)
    from r obtain h1 sb where a: "handleAlternation opts nodeList alternatives (fst s) = Some (Inr (h1, sb))"
      and bc: "baseConcat h1 nodeList (snd s) sb = Inr (h', sub)"
      unfolding handleElement.simps rbind_prod_Some_Inr by auto
    from 8 inv nl ok a have p1: "pres (fst s) h1" "sub_alloc h1 sb" by (auto dest: handle_postD)
    note p2 = baseConcat_pres[OF pres_inv[OF p1(1)] sub_alloc_mono[OF p1(1) sa] p1(2) bc]
    with p1 show "pres (fst s) h' \<and> sub_alloc h' sub" using pres_trans by blast
  qed
next
  case (9 opts nodeList alternatives s)
  show ?case by (simp add: handle_post_def)
next
  case (10 opts nodeList chars s)
  show ?case
  proof (intro impI handle_postI)
    fix h' sub
    assume pre: "handle_pre nodeList s" and ok: "elem_ok (CharacterClass chars)"
      and r: "handleElement opts nodeList (CharacterClass chars) s = Some (Inr (h', sub))"
    from pre have inv: "heap_inv (fst s)" and nl: "nodeList < list_counter (fst s)"
      and sa: "sub_alloc (fst s) (snd s)" by (auto simp: handle_pre_def)
    from r have mx: "maximum chars = maxCharacter opts" by (auto split: if_splits)
    show "pres (fst s) h' \<and> sub_alloc h' sub"
    proof (cases "isEmpty chars")
      case True
      with r mx have "baseMakeEmpty (fst s) nodeList (snd s) = Inr (h', sub)" by simp
      from baseMakeEmpty_pres[OF inv this] sa show ?thesis
        by (auto simp: sub_alloc_def dest: pres_allocated)
    next
      case False
      with ok have hc: "\<exists>c. has chars c" by simp
      obtain h1 n where cr: "createNode (fst s) nodeList = (h1, n)" by (cases "createNode (fst s) nodeList")
      note p1 = createNode_pres[OF inv nl cr]
      from r mx False cr obtain h2 where
        f: "forEach (final (snd s)) (\<lambda>f h. linkNodes h nodeList f n chars) h1 = Inr h2"
        and res: "h' = h2" "sub = (snd s)\<lparr>final := [n]\<rparr>"
        by (auto simp: case_sum_Some_Inr)
      have p2: "pres h1 h2"
      proof (rule forEach_rule[OF f, where P = "pres h1"])
        show "pres h1 h1" using p1(1) by (auto intro: pres_refl dest: pres_inv)
      next
        fix f t t'
        assume f: "f \<in> set (final (snd s))" and Pt: "pres h1 t" and l: "linkNodes t nodeList f n chars = Inr t'"
        have "allocated t f" using sa f p1(1) Pt by (auto simp: sub_alloc_def dest: pres_allocated)
        moreover have "allocated t n" using p1(2) Pt by (auto dest: pres_allocated)
        ultimately have "pres t t'" using linkNodes_pres[OF pres_inv[OF Pt] _ _ hc l] by simp
        with Pt show "pres h1 t'" using pres_trans by blast
      qed
      have "pres (fst s) h'" using p1(1) p2 res pres_trans by blast
      moreover have "sub_alloc h' sub" using sa p1(2) p2 \<open>pres (fst s) h'\<close>
        by (auto simp: res sub_alloc_def dest: pres_allocated)
      ultimately show ?thesis by simp
    qed
  qed
next
  case (11 opts nodeList alternatives min0 max0 s)
  show ?case
  proof (intro impI handle_postI)
    fix h' sub
    assume pre: "handle_pre nodeList s" and ok: "elem_ok (Quantifier alternatives min0 max0)"
      and r: "handleElement opts nodeList (Quantifier alternatives min0 max0) s = Some (Inr (h', sub))"
    from pre have inv: "heap_inv (fst s)" and nl: "nodeList < list_counter (fst s)"
      and sa: "sub_alloc (fst s) (snd s)" by (auto simp: handle_pre_def)
    from r obtain h1 base h2 sb where
      a: "handleAlternation opts nodeList alternatives (fst s) = Some (Inr (h1, base))"
      and q: "baseQuantify h1 nodeList base min0 max0 = Some (Inr (h2, sb))"
      and bc: "baseConcat h2 nodeList (snd s) sb = Inr (h', sub)"
      unfolding handleElement.simps rbind_prod_Some_Inr by auto
    from 11 inv nl ok a have p1: "pres (fst s) h1" "sub_alloc h1 base" by (auto dest: handle_postD)
    note p2 = baseQuantify_pres[OF pres_inv[OF p1(1)] pres_list[OF p1(1) nl] p1(2) q]
    have p12: "pres (fst s) h2" using p1(1) p2(1) pres_trans by blast
    note p3 = baseConcat_pres[OF pres_inv[OF p2(1)] sub_alloc_mono[OF p12 sa] p2(2) bc]
    with p12 show "pres (fst s) h' \<and> sub_alloc h' sub" using pres_trans by blast
  qed
qed

lemma createNodeList_pres:
  assumes inv: "heap_inv h" and ok: "\<forall>c \<in> set expression. conc_ok c"
    and run: "createNodeList h expression opts = Some (Inr (h', nodeList))"
  shows "pres h h'" "nodeList < list_counter h'"
proof -
  obtain h0 nl where n: "new_NodeList h = (h0, nl)" by (cases "new_NodeList h")
  note p0 = new_NodeList_pres[OF inv n]
  from run obtain h1 replacement r where
    a: "handleAlternation opts nl expression h0 = Some (Inr (h1, replacement))"
    and b: "baseReplaceWith h1 nl (asSubList h1 nl) replacement = Inr r"
    and res: "h' = setFinal nl r" "nodeList = nl"
    unfolding createNodeList_def n prod.case rbind_prod_Some_Inr by (auto simp: case_sum_Some_Inr)
  obtain h2 base2 where r: "r = (h2, base2)" by (cases r)
  from handle_pres(1)[of h0 nl expression opts] p0 ok a
  have p1: "pres h0 h1" "sub_alloc h1 replacement" by (auto dest: pres_inv handle_postD)
  have nl1: "nl < list_counter h1" using pres_list[OF p1(1) p0(2)] .
  note p2 = baseReplaceWith_pres[OF pres_inv[OF p1(1)] asSubList_alloc[OF pres_inv[OF p1(1)] nl1] p1(2) b[unfolded r]]
  have p02: "pres h0 h2" using p1(1) p2(1) pres_trans by blast
  have p: "pres h0 h'" using setFinal_pres(1)[OF p02 p0(2) p2(2)] by (simp add: res r)
  show "pres h h'" using p0(1) p pres_trans by blast
  show "nodeList < list_counter h'" using pres_list[OF p p0(2)] by (simp add: res)
qed

definition regex_ok :: "regex_input \<Rightarrow> bool" where
  "regex_ok v = (case v of
       FromAlternatives alternatives \<Rightarrow> \<forall>c \<in> set alternatives. conc_ok c
     | FromConcatenation node \<Rightarrow> conc_ok node
     | FromExpression alternatives \<Rightarrow> \<forall>c \<in> set alternatives. conc_ok c)"

lemma fromRegex_pres:
  assumes inv: "heap_inv h" and ok: "regex_ok v"
    and run: "fromRegex h v opts = Some (Inr (h', nfa))"
  shows "pres h h'" "nodes nfa < list_counter h'"
proof -
  from run obtain expression where "createNodeList h expression opts = Some (Inr (h', nodes nfa))"
    and "\<forall>c \<in> set expression. conc_ok c"
    using ok unfolding fromRegex_def rbind_prod_Some_Inr regex_ok_def
    by (cases v) auto
  from createNodeList_pres[OF inv this(2) this(1)]
  show "pres h h'" "nodes nfa < list_counter h'" by auto
qed

definition adj_symmetric_except :: "heap \<Rightarrow> NFANode \<Rightarrow> bool" where
  "adj_symmetric_except h i =
     (\<forall>a b. a \<noteq> i \<and> b \<noteq> i \<longrightarrow> map_of (node_out h a) b = map_of (node_in h b) a)"

lemma removeNode_pres:
  assumes inv: "heap_inv h" and l: "this < list_counter h" and run: "removeNode h this node = Inr h'"
  shows "pres h h'"
proof -
  define h0 where "h0 = h\<lparr>list_final := (list_final h)(this := set_delete (list_final h this) node)\<rparr>"
  from run obtain h1 where
    f1: "forEach (map fst (node_out h0 node)) (\<lambda>outgoing h. unlinkNodes h this node outgoing) h0 = Inr h1"
    and f2: "forEach (map fst (node_in h1 node)) (\<lambda>incoming h. unlinkNodes h this incoming node) h1 = Inr h'"
    unfolding removeNode_def Let_def h0_def[symmetric] by (auto simp: case_sum_Inr split: if_splits)
  have sa: "sub_alloc h \<lparr>initial = list_initial this, final = set_delete (list_final h this) node\<rparr>"
    using heap_inv_final[OF inv] heap_inv_initial[OF inv l] by (auto simp: sub_alloc_def)
  have p0: "pres h h0" using setFinal_pres(1)[OF pres_refl[OF inv] l sa] by (simp add: setFinal_def h0_def)
  have p1: "pres h0 h1"
    by (rule forEach_rule[OF f1, where P = "pres h0"])
       (use p0 pres_trans unlinkNodes_pres in \<open>blast intro: pres_refl dest: pres_inv\<close>)+
  have p2: "pres h1 h'"
    by (rule forEach_rule[OF f2, where P = "pres h1"])
       (use p1 pres_trans unlinkNodes_pres in \<open>blast intro: pres_refl dest: pres_inv\<close>)+
  show ?thesis using p0 p1 p2 pres_trans by blast
qed

lemma removeNodes_pres:
  assumes inv: "heap_inv h" and l: "this < list_counter h"
    and run: "forEach xs (\<lambda>node h. if node \<notin> set keep then removeNode h this node else Inr h) h = Inr h'"
  shows "pres h h'"
proof (rule forEach_rule[OF run, where P = "pres h"])
  show "pres h h" by (rule pres_refl[OF inv])
next
  fix x s s'
  assume Ps: "pres h s" and st: "(if x \<notin> set keep then removeNode s this x else Inr s) = Inr s'"
  show "pres h s'"
  proof (cases "x \<notin> set keep")
    case True
    with st have "removeNode s this x = Inr s'" by simp
    from removeNode_pres[OF pres_inv[OF Ps] pres_list[OF Ps l] this] Ps show ?thesis
      using pres_trans by blast
  next
    case False
    with st Ps show ?thesis by simp
  qed
qed

lemma removeUnreachable_cases:
  assumes inv: "heap_inv h" and l: "this < list_counter h"
    and run: "removeUnreachable h this = Some (Inr h')"
  shows "pres h h' \<or> (\<exists>h1. pres h h1 \<and> h' = makeEmpty h1 this)"
proof (cases "length (list_final h this) = 0")
  case True
  with run have "h' = makeEmpty h this" by (simp add: removeUnreachable_def)
  with inv show ?thesis using pres_refl by blast
next
  case False
  note run1 = run[unfolded removeUnreachable_def if_not_P[OF False] rbind_Some_Inr]
  then obtain allNodes reachableFromInitial where
    rest: "(case forEach allNodes
                         (\<lambda>node h. if node \<notin> set reachableFromInitial
                                    then removeNode h this node else Inr h) h of
                    Inl e \<Rightarrow> Some (Inl e)
                  | Inr h1 \<Rightarrow>
                      if length (list_final h1 this) = 0 then Some (Inr (makeEmpty h1 this))
                      else
                        rbind (forEachP (list_final h1 this)
                                 (\<lambda>fin canReachFinal.
                                    DFS fin
                                      (\<lambda>node canReachFinal.
                                         if node \<in> set canReachFinal then Inr (canReachFinal, [])
                                         else Inr (set_add canReachFinal node, map fst (node_in h1 node)))
                                      canReachFinal)
                                 [])
                          (\<lambda>canReachFinal.
                             Some (forEach reachableFromInitial
                                     (\<lambda>node h. if node \<notin> set canReachFinal
                                                then removeNode h this node else Inr h) h1))) = Some (Inr h')"
    by blast
  then obtain h1 where f1: "forEach allNodes
                         (\<lambda>node h. if node \<notin> set reachableFromInitial
                                    then removeNode h this node else Inr h) h = Inr h1"
    and rest2: "(if length (list_final h1 this) = 0 then Some (Inr (makeEmpty h1 this))
                      else
                        rbind (forEachP (list_final h1 this)
                                 (\<lambda>fin canReachFinal.
                                    DFS fin
                                      (\<lambda>node canReachFinal.
                                         if node \<in> set canReachFinal then Inr (canReachFinal, [])
                                         else Inr (set_add canReachFinal node, map fst (node_in h1 node)))
                                      canReachFinal)
                                 [])
                          (\<lambda>canReachFinal.
                             Some (forEach reachableFromInitial
                                     (\<lambda>node h. if node \<notin> set canReachFinal
                                                then removeNode h this node else Inr h) h1))) = Some (Inr h')"
    unfolding case_sum_Some_Inr by blast
  note p1 = removeNodes_pres[OF inv l f1]
  show ?thesis
  proof (cases "length (list_final h1 this) = 0")
    case True
    with rest2 have "h' = makeEmpty h1 this" by simp
    with p1 show ?thesis by blast
  next
    case False
    from rest2[unfolded if_not_P[OF False] rbind_Some_Inr] obtain canReachFinal where
      f2: "forEach reachableFromInitial
                                     (\<lambda>node h. if node \<notin> set canReachFinal
                                                then removeNode h this node else Inr h) h1 = Inr h'"
      by auto
    from removeNodes_pres[OF pres_inv[OF p1] pres_list[OF p1 l] f2] p1 show ?thesis
      using pres_trans by blast
  qed
qed

lemma makeEmpty_except:
  assumes inv: "heap_inv h"
  shows "adj_symmetric_except (makeEmpty h this) (list_initial this)"
    "list_final (makeEmpty h this) this = []"
    "node_out (makeEmpty h this) (list_initial this) = []"
    "node_in (makeEmpty h this) (list_initial this) = []"
  using inv by (simp_all add: makeEmpty_def adj_symmetric_except_def heap_inv_def adj_symmetric_def)

lemma pres_symmetric: "pres h h' \<Longrightarrow> adj_symmetric h'"
  by (simp add: pres_def heap_inv_def)

lemma symmetric_except: "adj_symmetric h \<Longrightarrow> adj_symmetric_except h i"
  by (simp add: adj_symmetric_def adj_symmetric_except_def)

lemma cs_intersect_inhabited:
  assumes "\<not> isEmpty (cs_intersect a b)"
  shows "\<exists>c. has (cs_intersect a b) c"
proof -
  from assms obtain lo hi rs where r: "ranges (cs_intersect a b) = (lo, hi) # rs"
    by (cases "ranges (cs_intersect a b)") (auto simp: isEmpty_def)
  then have "(lo, hi) \<in> set (ranges (cs_intersect a b))" by simp
  then have "lo \<le> hi" by (auto simp: cs_intersect_def)
  then have "in_ranges lo (ranges (cs_intersect a b))" unfolding r by (simp add: in_ranges_Cons)
  then show ?thesis unfolding has_in_ranges by blast
qed

definition product_state_ok :: "heap \<Rightarrow> heap \<times> (nat \<times> NFANode) list \<Rightarrow> bool" where
  "product_state_ok h0 s \<longleftrightarrow> (case s of (h, cache) \<Rightarrow> pres h0 h \<and> cache_alloc h cache)"

lemma product_state_ok_trans:
  "product_state_ok h0 s \<Longrightarrow> product_state_ok (fst s) t \<Longrightarrow> product_state_ok h0 t"
  unfolding product_state_ok_def using pres_trans by (cases s; cases t) auto

lemma product_state_ok_refl: "product_state_ok h0 s \<Longrightarrow> product_state_ok (fst s) s"
  unfolding product_state_ok_def by (cases s) (auto intro: pres_refl dest: pres_inv)

lemma translate_pres:
  assumes nl: "nodeList < list_counter h0" and ok: "product_state_ok h0 s"
    and run: "translate nodeList thisIndexMap otherIndexMap s thisNode otherNode = Inr (s', n)"
  shows "product_state_ok h0 s'" "allocated (fst s') n"
proof -
  obtain h cache where s: "s = (h, cache)" by (cases s)
  from ok have p: "pres h0 h" and c: "cache_alloc h cache" by (auto simp: product_state_ok_def s)
  from run obtain k h' cache' where cc: "cached_createNode h nodeList cache k = (h', cache', n)"
    and s': "s' = (h', cache')"
    by (auto simp: translate_def s split: option.splits prod.splits)
  note r = cached_createNode_pres[OF pres_inv[OF p] pres_list[OF p nl] c cc]
  have "pres h0 h'" using p r(1) pres_trans by blast
  with r show "product_state_ok h0 s'" "allocated (fst s') n" by (simp_all add: product_state_ok_def s')
qed

lemma intersect_finals_pres:
  assumes nl: "nodeList < list_counter h0" and ok: "product_state_ok h0 s"
    and run: "intersect_finals nodeList thisIndexMap otherIndexMap leftFinal rightFinal s = Inr s'"
  shows "product_state_ok h0 s'"
proof (rule forEach_rule[OF run[unfolded intersect_finals_def], where P = "product_state_ok h0"])
  show "product_state_ok h0 s" by (rule ok)
next
  fix x t t'
  assume Pt: "product_state_ok h0 t"
    and st: "forEach rightFinal
            (\<lambda>otherFinal s.
               case translate nodeList thisIndexMap otherIndexMap s x otherFinal of
                 Inl e \<Rightarrow> Inl e
               | Inr ((h, cache), n) \<Rightarrow>
                   Inr (h\<lparr>list_final := (list_final h)(nodeList := set_add (list_final h nodeList) n)\<rparr>,
                        cache)) t = Inr t'"
  show "product_state_ok h0 t'"
  proof (rule forEach_rule[OF st, where P = "product_state_ok h0"])
    show "product_state_ok h0 t" by (rule Pt)
  next
    fix y u u'
    assume Pu: "product_state_ok h0 u"
      and su: "(case translate nodeList thisIndexMap otherIndexMap u x y of
                 Inl e \<Rightarrow> Inl e
               | Inr ((h, cache), n) \<Rightarrow>
                   Inr (h\<lparr>list_final := (list_final h)(nodeList := set_add (list_final h nodeList) n)\<rparr>,
                        cache)) = Inr u'"
    from su obtain h cache n where tr: "translate nodeList thisIndexMap otherIndexMap u x y = Inr ((h, cache), n)"
      and u': "u' = (h\<lparr>list_final := (list_final h)(nodeList := set_add (list_final h nodeList) n)\<rparr>, cache)"
      by (auto split: sum.splits)
    note r = translate_pres[OF nl Pu tr]
    from r have p: "pres h0 h" and c: "cache_alloc h cache" and a: "allocated h n"
      by (auto simp: product_state_ok_def)
    have sa: "sub_alloc h \<lparr>initial = list_initial nodeList, final = set_add (list_final h nodeList) n\<rparr>"
      using a heap_inv_final[OF pres_inv[OF p]] heap_inv_initial[OF pres_inv[OF p] pres_list[OF p nl]]
      by (auto simp: sub_alloc_def)
    from setFinal_pres(1)[OF p nl sa]
    have p': "pres h0 (h\<lparr>list_final := (list_final h)(nodeList := set_add (list_final h nodeList) n)\<rparr>)"
      by (simp add: setFinal_def)
    moreover have "cache_alloc (h\<lparr>list_final := (list_final h)(nodeList := set_add (list_final h nodeList) n)\<rparr>) cache"
      using c by (simp add: cache_alloc_def allocated_def)
    ultimately show "product_state_ok h0 u'" by (simp add: product_state_ok_def u')
  qed
qed

lemma intersect_edges_pres:
  assumes nl: "nodeList < list_counter h0" and ok: "product_state_ok h0 s"
    and run: "intersect_edges nodeList thisIndexMap otherIndexMap leftNodes rightNodes s = Inr s'"
  shows "product_state_ok h0 s'"
proof (rule forEach_rule[OF run[unfolded intersect_edges_def], where P = "product_state_ok h0"])
  show "product_state_ok h0 s" by (rule ok)
next
  fix thisNode t t'
  assume Pt: "product_state_ok h0 t"
    and st: "forEach rightNodes
            (\<lambda>otherNode s.
               case translate nodeList thisIndexMap otherIndexMap s thisNode otherNode of
                 Inl e \<Rightarrow> Inl e
               | Inr (s1, from) \<Rightarrow>
                   forEach (node_out (fst s1) thisNode)
                     (\<lambda>(thisTo, thisTransition) s.
                        forEach (node_out (fst s) otherNode)
                          (\<lambda>(otherTo, otherTransition) s.
                             let transition = cs_intersect thisTransition otherTransition in
                             if \<not> isEmpty transition then
                               (case translate nodeList thisIndexMap otherIndexMap s thisTo otherTo of
                                  Inl e \<Rightarrow> Inl e
                                | Inr ((h, cache), to) \<Rightarrow>
                                    (case linkNodes h nodeList from to transition of
                                       Inl e \<Rightarrow> Inl e
                                     | Inr h' \<Rightarrow> Inr (h', cache)))
                             else Inr s) s) s1) t = Inr t'"
  show "product_state_ok h0 t'"
  proof (rule forEach_rule[OF st, where P = "product_state_ok h0"])
    show "product_state_ok h0 t" by (rule Pt)
  next
    fix otherNode u u'
    assume Pu: "product_state_ok h0 u"
      and su: "(case translate nodeList thisIndexMap otherIndexMap u thisNode otherNode of
                 Inl e \<Rightarrow> Inl e
               | Inr (s1, from) \<Rightarrow>
                   forEach (node_out (fst s1) thisNode)
                     (\<lambda>(thisTo, thisTransition) s.
                        forEach (node_out (fst s) otherNode)
                          (\<lambda>(otherTo, otherTransition) s.
                             let transition = cs_intersect thisTransition otherTransition in
                             if \<not> isEmpty transition then
                               (case translate nodeList thisIndexMap otherIndexMap s thisTo otherTo of
                                  Inl e \<Rightarrow> Inl e
                                | Inr ((h, cache), to) \<Rightarrow>
                                    (case linkNodes h nodeList from to transition of
                                       Inl e \<Rightarrow> Inl e
                                     | Inr h' \<Rightarrow> Inr (h', cache)))
                             else Inr s) s) s1) = Inr u'"
    from su obtain s1 frm where tr: "translate nodeList thisIndexMap otherIndexMap u thisNode otherNode = Inr (s1, frm)"
      and g: "forEach (node_out (fst s1) thisNode)
                     (\<lambda>(thisTo, thisTransition) s.
                        forEach (node_out (fst s) otherNode)
                          (\<lambda>(otherTo, otherTransition) s.
                             let transition = cs_intersect thisTransition otherTransition in
                             if \<not> isEmpty transition then
                               (case translate nodeList thisIndexMap otherIndexMap s thisTo otherTo of
                                  Inl e \<Rightarrow> Inl e
                                | Inr ((h, cache), to) \<Rightarrow>
                                    (case linkNodes h nodeList frm to transition of
                                       Inl e \<Rightarrow> Inl e
                                     | Inr h' \<Rightarrow> Inr (h', cache)))
                             else Inr s) s) s1 = Inr u'"
      unfolding case_sum_prod_Inr by blast
    note r1 = translate_pres[OF nl Pu tr]
    define Q where "Q = (\<lambda>s. product_state_ok h0 s \<and> allocated (fst s) frm)"
    have "Q u'"
    proof (rule forEach_rule[OF g, where P = Q])
      show "Q s1" using r1 by (simp add: Q_def)
    next
      fix e1 v v'
      assume Qv: "Q v"
        and sv: "(case e1 of (thisTo, thisTransition) \<Rightarrow> \<lambda>s.
                        forEach (node_out (fst s) otherNode)
                          (\<lambda>(otherTo, otherTransition) s.
                             let transition = cs_intersect thisTransition otherTransition in
                             if \<not> isEmpty transition then
                               (case translate nodeList thisIndexMap otherIndexMap s thisTo otherTo of
                                  Inl e \<Rightarrow> Inl e
                                | Inr ((h, cache), to) \<Rightarrow>
                                    (case linkNodes h nodeList frm to transition of
                                       Inl e \<Rightarrow> Inl e
                                     | Inr h' \<Rightarrow> Inr (h', cache)))
                             else Inr s) s) v = Inr v'"
      obtain thisTo thisTransition where e1: "e1 = (thisTo, thisTransition)" by (cases e1)
      show "Q v'"
      proof (rule forEach_rule[OF sv[unfolded e1 prod.case], where P = Q])
        show "Q v" by (rule Qv)
      next
        fix e2 w w'
        assume Qw: "Q w"
          and sw: "(case e2 of (otherTo, otherTransition) \<Rightarrow> \<lambda>s.
                             let transition = cs_intersect thisTransition otherTransition in
                             if \<not> isEmpty transition then
                               (case translate nodeList thisIndexMap otherIndexMap s thisTo otherTo of
                                  Inl e \<Rightarrow> Inl e
                                | Inr ((h, cache), to) \<Rightarrow>
                                    (case linkNodes h nodeList frm to transition of
                                       Inl e \<Rightarrow> Inl e
                                     | Inr h' \<Rightarrow> Inr (h', cache)))
                             else Inr s) w = Inr w'"
        obtain otherTo otherTransition where e2: "e2 = (otherTo, otherTransition)" by (cases e2)
        show "Q w'"
        proof (cases "isEmpty (cs_intersect thisTransition otherTransition)")
          case True
          with sw have "w' = w" by (simp add: e2)
          with Qw show ?thesis by simp
        next
          case False
          with sw obtain h cache to h' where
            tr2: "translate nodeList thisIndexMap otherIndexMap w thisTo otherTo = Inr ((h, cache), to)"
            and lk: "linkNodes h nodeList frm to (cs_intersect thisTransition otherTransition) = Inr h'"
            and w': "w' = (h', cache)"
            by (auto simp: e2 Let_def split: sum.splits)
          from Qw have Pw: "product_state_ok h0 w" and aw: "allocated (fst w) frm" by (auto simp: Q_def)
          note r2 = translate_pres[OF nl Pw tr2]
          from r2 have p: "pres h0 h" and c: "cache_alloc h cache" and a: "allocated h to"
            by (auto simp: product_state_ok_def)
          from translate_pres(1)[OF pres_list[OF _ nl] product_state_ok_refl[OF Pw] tr2] Pw
          have pw: "pres (fst w) h" by (cases w) (auto simp: product_state_ok_def)
          have af: "allocated h frm" using pres_allocated[OF pw aw] .
          have p': "pres h h'"
            using linkNodes_pres[OF pres_inv[OF p] af a cs_intersect_inhabited[OF False] lk] .
          have "pres h0 h'" using p p' pres_trans by blast
          moreover have "cache_alloc h' cache" using cache_alloc_mono[OF p' c] .
          moreover have "allocated h' frm" using pres_allocated[OF p' af] .
          ultimately show ?thesis by (simp add: Q_def product_state_ok_def w')
        qed
      qed
    qed
    then show "product_state_ok h0 u'" by (simp add: Q_def)
  qed
qed

lemma intersect_result:
  assumes inv: "heap_inv h"
    and run: "intersect h left right = Some (Inr (h', nfa))"
  shows "(pres h h' \<or> (\<exists>h1. pres h h1 \<and> h' = makeEmpty h1 (nodes nfa)))
     \<and> nodes nfa < list_counter h'"
proof -
  obtain h0 nodeList where n: "new_NodeList h = (h0, nodeList)" by (cases "new_NodeList h")
  note p0 = new_NodeList_pres[OF inv n]
  from run have "rbind (iterate h0 (nodes left))
               (\<lambda>leftNodes.
                  rbind (iterate h0 (nodes right))
                    (\<lambda>rightNodes.
                       let thisIndexMap = createIndexMap leftNodes;
                           otherIndexMap = createIndexMap rightNodes
                       in case intersect_finals nodeList thisIndexMap otherIndexMap
                                 (list_final h0 (nodes left)) (list_final h0 (nodes right))
                                 (h0, [(0, list_initial nodeList)]) of
                            Inl e \<Rightarrow> Some (Inl e)
                          | Inr s1 \<Rightarrow>
                              (case intersect_edges nodeList thisIndexMap otherIndexMap
                                      leftNodes rightNodes s1 of
                                 Inl e \<Rightarrow> Some (Inl e)
                               | Inr (h2, cache) \<Rightarrow>
                                   rbind (removeUnreachable h2 nodeList)
                                     (\<lambda>h3.
                                        case baseOptimizationReuseFinalStates h3 nodeList
                                               (asSubList h3 nodeList) of
                                          Inl e \<Rightarrow> Some (Inl e)
                                        | Inr r \<Rightarrow>
                                            Some (Inr (setFinal nodeList r,
                                                       \<lparr>nodes = nodeList, options = options left\<rparr>))))))
      = Some (Inr (h', nfa))"
    unfolding intersect_def n prod.case by (auto split: sum.splits)
  then obtain leftNodes rightNodes s1 h2 cache h3 r where
    fi: "intersect_finals nodeList (createIndexMap leftNodes) (createIndexMap rightNodes)
           (list_final h0 (nodes left)) (list_final h0 (nodes right))
           (h0, [(0, list_initial nodeList)]) = Inr s1"
    and ed: "intersect_edges nodeList (createIndexMap leftNodes) (createIndexMap rightNodes)
           leftNodes rightNodes s1 = Inr (h2, cache)"
    and ru: "removeUnreachable h2 nodeList = Some (Inr h3)"
    and op: "baseOptimizationReuseFinalStates h3 nodeList (asSubList h3 nodeList) = Inr r"
    and res: "h' = setFinal nodeList r" "nfa = \<lparr>nodes = nodeList, options = options left\<rparr>"
    unfolding rbind_Some_Inr Let_def
    by (auto simp: case_sum_Some_Inr case_sum_prod_Some_Inr rbind_Some_Inr)
  have ok0: "product_state_ok h0 (h0, [(0, list_initial nodeList)])"
    using p0 by (simp add: product_state_ok_def cache_alloc_def pres_refl[OF pres_inv])
  note ok1 = intersect_finals_pres[OF p0(2) ok0 fi]
  note ok2 = intersect_edges_pres[OF p0(2) ok1 ed]
  then have p2: "pres h0 h2" by (simp add: product_state_ok_def)
  have nl2: "nodeList < list_counter h2" using pres_list[OF p2 p0(2)] .
  obtain h4 base4 where r: "r = (h4, base4)" by (cases r)
  from removeUnreachable_cases[OF pres_inv[OF p2] nl2 ru]
  show ?thesis
  proof
    assume p3: "pres h2 h3"
    have nl3: "nodeList < list_counter h3" using pres_list[OF p3 nl2] .
    note p4 = baseOptimizationReuseFinalStates_pres[OF pres_inv[OF p3] asSubList_alloc[OF pres_inv[OF p3] nl3] op[unfolded r]]
    have p04: "pres h0 h4" using p2 p3 p4(1) pres_trans by blast
    have p: "pres h0 h'" using setFinal_pres(1)[OF p04 p0(2) p4(2)] by (simp add: res r)
    have "pres h h'" using p0(1) p pres_trans by blast
    moreover have "nodes nfa < list_counter h'" using pres_list[OF p p0(2)] by (simp add: res)
    ultimately show ?thesis by simp
  next
    assume "\<exists>h1. pres h2 h1 \<and> h3 = makeEmpty h1 nodeList"
    then obtain h1 where p1: "pres h2 h1" and h3: "h3 = makeEmpty h1 nodeList" by blast
    have fe: "list_final h3 nodeList = []" by (simp add: h3 makeEmpty_def)
    from op have "r = (h3, asSubList h3 nodeList)"
      by (simp add: baseOptimizationReuseFinalStates_def asSubList_def fe Let_def)
    then have "h' = h3" by (simp add: res setFinal_def asSubList_def fe[symmetric] fun_upd_idem)
    moreover have "pres h h1" using p0(1) p2 p1 pres_trans by blast
    moreover have "nodeList < list_counter h3"
      using pres_list[OF p1 nl2] by (simp add: h3 makeEmpty_def)
    ultimately show ?thesis using h3 by (auto simp: res)
  qed
qed

lemma heap_inv_symmetric: "heap_inv h \<Longrightarrow> adj_symmetric h"
  by (simp add: heap_inv_def)

lemma heap_inv_empty: "heap_inv empty_heap"
  by (simp add: heap_inv_def empty_heap_def adj_symmetric_def allocated_def)

lemma linkNodes_symmetric:
  assumes "adj_symmetric h" "linkNodes h this from to chars = Inr h'"
  shows "adj_symmetric h'"
proof -
  from assms(2) have h': "h' = h\<lparr>node_out := (node_out h)(from := added (node_out h from) to chars),
            node_in := (node_in h)(to := added (node_in h to) from chars)\<rparr>"
    by (simp add: linkNodes_Inr)
  from assms(1) have sym: "map_of (node_out h x) y = map_of (node_in h y) x" for x y
    by (simp add: adj_symmetric_def)
  show ?thesis unfolding adj_symmetric_def by (simp add: h' map_of_added sym)
qed

lemma unlinkNodes_symmetric:
  assumes "adj_symmetric h" "unlinkNodes h this from to = Inr h'"
  shows "adj_symmetric h'"
proof -
  from assms(2) have h': "h' = h\<lparr>node_out := (node_out h)(from := AList.delete to (node_out h from)),
            node_in := (node_in h)(to := AList.delete from (node_in h to))\<rparr>"
    by (simp add: unlinkNodes_Inr)
  from assms(1) have sym: "map_of (node_out h x) y = map_of (node_in h y) x" for x y
    by (simp add: adj_symmetric_def)
  show ?thesis unfolding adj_symmetric_def by (simp add: h' delete_conv' sym)
qed

lemma intersect_symmetric:
  assumes inv: "heap_inv h" and run: "intersect h left right = Some (Inr (h', nfa))"
  shows "adj_symmetric_except h' (list_initial (nodes nfa))"
    "list_final h' (nodes nfa) \<noteq> [] \<Longrightarrow> heap_inv h'"
proof -
  from intersect_result[OF inv run]
  have c: "pres h h' \<or> (\<exists>h1. pres h h1 \<and> h' = makeEmpty h1 (nodes nfa))" by simp
  then show "adj_symmetric_except h' (list_initial (nodes nfa))"
    using makeEmpty_except(1) pres_symmetric pres_inv symmetric_except by blast
  show "heap_inv h'" if "list_final h' (nodes nfa) \<noteq> []"
    using c that makeEmpty_except(2) pres_inv by blast
qed

lemmas eval_intersect_defs = eval_defs intersect_def iterate_def iterate_loop.simps iterate_level_def
  createIndexMap_def intersect_finals_def intersect_edges_def translate_def cached_createNode_def
  checkOptionsCompatibility_def removeUnreachable_def DFS_def DFS_loop.simps rbind_def
  makeEmpty_def removeNode_def unlinkNodes_def cs_intersect_def set_delete_def

text \<open>
  C9: adjacency symmetry should hold after every public operation, also for the nodes that
  the reset of \<open>removeUnreachable\<close> detaches. \<open>removeNode\<close> and \<open>baseMakeEmpty\<close> remove an
  edge with \<open>unlinkNodes\<close>, on both sides; the reset \<open>makeEmpty\<close> clears the two maps of
  the initial node and leaves the other side of its edges. Intersecting the automata of
  the words \<open>ab\<close> and \<open>ac\<close> links the initial node of the product to the pair reached on
  \<open>a\<close> and then finds no final node: after the reset \<open>initial.out\<close> is empty, and the
  detached node still has the initial node in its \<open>in\<close> map.
\<close>

theorem intersect_reset_breaks_symmetry:
  "\<exists>h1 a h2 b h3 c. fromWords empty_heap [[97, 98]] example_opts = Inr (h1, a)
     \<and> fromWords h1 [[97, 99]] example_opts = Inr (h2, b)
     \<and> intersect h2 a b = Some (Inr (h3, c))
     \<and> map_of (node_out h3 (list_initial (nodes c))) (NFANode 2 2) = None
     \<and> map_of (node_in h3 (NFANode 2 2)) (list_initial (nodes c))
          = Some \<lparr>maximum = 65535, ranges = [(97, 97)]\<rparr>
     \<and> \<not> adj_symmetric h3"
proof -
  have "\<exists>h1 a h2 b h3 c. fromWords empty_heap [[97, 98]] example_opts = Inr (h1, a)
     \<and> fromWords h1 [[97, 99]] example_opts = Inr (h2, b)
     \<and> intersect h2 a b = Some (Inr (h3, c))
     \<and> map_of (node_out h3 (list_initial (nodes c))) (NFANode 2 2) = None
     \<and> map_of (node_in h3 (NFANode 2 2)) (list_initial (nodes c))
          = Some \<lparr>maximum = 65535, ranges = [(97, 97)]\<rparr>"
    by (simp add: eval_intersect_defs)
  then show ?thesis unfolding adj_symmetric_def by (metis option.distinct(1))
qed

section \<open>Depth-first search returns\<close>

text \<open>
  A search whose elements stay in a finite set returns: every step either pops an element
  visited before or visits a new one. \<open>J\<close> is an invariant of the stack, the visited
  elements and the state.
\<close>

lemma DFS_loop_total:
  assumes fin: "finite U" and J: "J stack visited s"
    and skip: "\<And>x rest vis s. J (x # rest) vis s \<Longrightarrow> x \<in> set vis \<Longrightarrow> J rest vis s"
    and step: "\<And>x rest vis s. J (x # rest) vis s \<Longrightarrow> x \<notin> set vis \<Longrightarrow>
                 x \<in> U \<and> (\<exists>s' ys. next x s = Inr (s', ys) \<and> J (rev ys @ rest) (x # vis) s')"
  shows "\<exists>s' vis'. DFS_loop next stack visited s = Some (Inr s') \<and> J [] vis' s'"
  using J
proof (induction "card (U - set visited)" arbitrary: stack visited s rule: less_induct)
  case less
  show ?case using less.prems
  proof (induction stack arbitrary: s)
    case Nil
    then show ?case by (subst DFS_loop.simps) auto
  next
    case (Cons x rest)
    show ?case
    proof (cases "x \<in> set visited")
      case True
      from Cons.IH[OF skip[OF Cons.prems True]] True show ?thesis
        by (subst DFS_loop.simps) simp
    next
      case False
      from step[OF Cons.prems False] obtain s' ys where
        x: "x \<in> U" and n: "next x s = Inr (s', ys)" and J': "J (rev ys @ rest) (x # visited) s'"
        by blast
      have "U - set (x # visited) \<subset> U - set visited" using x False by auto
      then have "card (U - set (x # visited)) < card (U - set visited)"
        using fin by (intro psubset_card_mono) auto
      from less.hyps[OF this J'] n False show ?thesis
        by (subst DFS_loop.simps) simp
    qed
  qed
qed

lemma DFS_collect:
  assumes fin: "finite U" and start: "start \<in> U" and cl: "\<And>x. x \<in> U \<Longrightarrow> set (succ x) \<subseteq> U"
  shows "\<exists>acc'. DFS start (\<lambda>n acc. Inr (set_add acc n, succ n)) acc = Some (Inr acc')
           \<and> set acc' = set acc \<union> {(x, y). y \<in> set (succ x)}\<^sup>* `` {start}"
proof -
  define E where "E = {(x, y). y \<in> set (succ x)}"
  define R where "R = E\<^sup>* `` {start}"
  have RU: "x \<in> U" if "x \<in> R" for x
  proof -
    from that have "(start, x) \<in> E\<^sup>*" by (simp add: R_def)
    then show ?thesis using start cl by (induction rule: rtrancl_induct) (auto simp: E_def)
  qed
  have Rs: "set (succ x) \<subseteq> R" if "x \<in> R" for x
    using that unfolding R_def E_def by (auto intro: rtrancl_into_rtrancl)
  define J where "J = (\<lambda>stack vis a. set a = set acc \<union> set vis \<and> set vis \<union> set stack \<subseteq> R
      \<and> start \<in> set vis \<union> set stack \<and> (\<forall>x\<in>set vis. set (succ x) \<subseteq> set vis \<union> set stack))"
  have J0: "J [start] [] acc" by (simp add: J_def R_def)
  have "\<exists>s' vis'. DFS_loop (\<lambda>n acc. Inr (set_add acc n, succ n)) [start] [] acc = Some (Inr s') \<and> J [] vis' s'"
  proof (rule DFS_loop_total[OF fin, where J = J, OF J0])
    fix x rest vis s
    assume "J (x # rest) vis s" "x \<in> set vis"
    then show "J rest vis s" unfolding J_def by auto
  next
    fix x rest vis s
    assume j: "J (x # rest) vis s" and "x \<notin> set vis"
    from j have xR: "x \<in> R" by (simp add: J_def)
    have "J (rev (succ x) @ rest) (x # vis) (set_add s x)"
      using j Rs[OF xR] unfolding J_def by (auto simp: set_add_def)
    with RU[OF xR]
    show "x \<in> U \<and> (\<exists>s' ys. Inr (set_add s x, succ x) = Inr (s', ys) \<and> J (rev ys @ rest) (x # vis) s')"
      by simp
  qed
  then obtain s' vis' where r: "DFS start (\<lambda>n acc. Inr (set_add acc n, succ n)) acc = Some (Inr s')"
    and j: "J [] vis' s'" by (auto simp: DFS_def)
  have "x \<in> set vis'" if "x \<in> R" for x
  proof -
    from that have "(start, x) \<in> E\<^sup>*" by (simp add: R_def)
    then show ?thesis using j by (induction rule: rtrancl_induct) (auto simp: E_def J_def)
  qed
  with j have "set s' = set acc \<union> R" by (auto simp: J_def)
  with r show ?thesis unfolding R_def E_def by blast
qed

lemma DFS_collect_closed:
  assumes fin: "finite U" and start: "start \<in> U" and cl: "\<And>x. x \<in> U \<Longrightarrow> set (succ x) \<subseteq> U"
    and closed: "\<forall>x\<in>set acc. set (succ x) \<subseteq> set acc"
  shows "\<exists>acc'. DFS start (\<lambda>n c. if n \<in> set c then Inr (c, []) else Inr (set_add c n, succ n)) acc
             = Some (Inr acc')
           \<and> set acc' = set acc \<union> {(x, y). y \<in> set (succ x)}\<^sup>* `` {start}"
proof -
  define E where "E = {(x, y). y \<in> set (succ x)}"
  define R where "R = E\<^sup>* `` {start}"
  define nxt where "nxt = (\<lambda>n c. if n \<in> set c then Inr (c, []) else (Inr (set_add c n, succ n) :: error + _))"
  have RU: "x \<in> U" if "x \<in> R" for x
  proof -
    from that have "(start, x) \<in> E\<^sup>*" by (simp add: R_def)
    then show ?thesis using start cl by (induction rule: rtrancl_induct) (auto simp: E_def)
  qed
  have Rs: "set (succ x) \<subseteq> R" if "x \<in> R" for x
    using that unfolding R_def E_def by (auto intro: rtrancl_into_rtrancl)
  define J where "J = (\<lambda>stack vis c. set acc \<subseteq> set c \<and> set c \<subseteq> set acc \<union> R \<and> set vis \<subseteq> set c
      \<and> set stack \<subseteq> R \<and> start \<in> set vis \<union> set stack
      \<and> (\<forall>x\<in>set c. set (succ x) \<subseteq> set c \<union> set stack))"
  have J0: "J [start] [] acc" using closed by (auto simp: J_def R_def)
  have "\<exists>s' vis'. DFS_loop nxt [start] [] acc = Some (Inr s') \<and> J [] vis' s'"
  proof (rule DFS_loop_total[OF fin, where J = J, OF J0])
    fix x rest vis s
    assume "J (x # rest) vis s" "x \<in> set vis"
    then show "J rest vis s" unfolding J_def by simp blast
  next
    fix x rest vis s
    assume j: "J (x # rest) vis s" and "x \<notin> set vis"
    from j have xR: "x \<in> R" by (simp add: J_def)
    show "x \<in> U \<and> (\<exists>s' ys. nxt x s = Inr (s', ys) \<and> J (rev ys @ rest) (x # vis) s')"
    proof (cases "x \<in> set s")
      case True
      then have "J (rev [] @ rest) (x # vis) s" using j unfolding J_def by auto
      with True RU[OF xR] show ?thesis by (simp add: nxt_def)
    next
      case False
      have "J (rev (succ x) @ rest) (x # vis) (set_add s x)"
        using j Rs[OF xR] xR unfolding J_def by (auto simp: set_add_def)
      with False RU[OF xR] show ?thesis by (simp add: nxt_def)
    qed
  qed
  then obtain s' vis' where r: "DFS start nxt acc = Some (Inr s')"
    and j: "J [] vis' s'" by (auto simp: DFS_def)
  have "x \<in> set s'" if "x \<in> R" for x
  proof -
    from that have "(start, x) \<in> E\<^sup>*" by (simp add: R_def)
    then show ?thesis using j by (induction rule: rtrancl_induct) (auto simp: E_def J_def)
  qed
  with j have "set s' = set acc \<union> R" by (auto simp: J_def)
  with r show ?thesis unfolding R_def E_def nxt_def by blast
qed

lemma forEachP_collect_closed:
  assumes fin: "finite U" and cl: "\<And>x. x \<in> U \<Longrightarrow> set (succ x) \<subseteq> U"
    and fs: "set fs \<subseteq> U" and closed: "\<forall>x\<in>set acc. set (succ x) \<subseteq> set acc"
  shows "\<exists>acc'. forEachP fs (\<lambda>f c. DFS f (\<lambda>n c. if n \<in> set c then Inr (c, [])
                                              else Inr (set_add c n, succ n)) c) acc
             = Some (Inr acc')
           \<and> set acc' = set acc \<union> {(x, y). y \<in> set (succ x)}\<^sup>* `` set fs"
  using fs closed
proof (induction fs arbitrary: acc)
  case Nil
  then show ?case by simp
next
  case (Cons f fs)
  from Cons.prems have fU: "f \<in> U" by simp
  from DFS_collect_closed[OF fin fU cl Cons.prems(2)] obtain a1 where
    r: "DFS f (\<lambda>n c. if n \<in> set c then Inr (c, []) else Inr (set_add c n, succ n)) acc = Some (Inr a1)"
    and s: "set a1 = set acc \<union> {(x, y). y \<in> set (succ x)}\<^sup>* `` {f}" by blast
  have c1: "\<forall>x\<in>set a1. set (succ x) \<subseteq> set a1"
    unfolding s using Cons.prems(2) by (auto intro: rtrancl_into_rtrancl)
  from Cons.IH[OF _ c1] Cons.prems(1) obtain a2 where
    "forEachP fs (\<lambda>f c. DFS f (\<lambda>n c. if n \<in> set c then Inr (c, [])
                                              else Inr (set_add c n, succ n)) c) a1 = Some (Inr a2)"
    "set a2 = set a1 \<union> {(x, y). y \<in> set (succ x)}\<^sup>* `` set fs" by auto
  with r s show ?case by (auto simp: rbind_def)
qed

section \<open>Pruning\<close>

text \<open>
  The edges of a store, and what removing a node does to them.
\<close>

definition edges :: "heap \<Rightarrow> (NFANode \<times> NFANode) set" where
  "edges h = {(a, b). map_of (node_out h a) b \<noteq> None}"

lemma finite_allocated:
  assumes inv: "heap_inv h"
  shows "finite {n. allocated h n}"
proof -
  have "{n. allocated h n} \<subseteq> (\<lambda>(l, i). NFANode l i) ` (SIGMA l:{..<list_counter h}. {..<nodeCounter h l})"
  proof
    fix n assume "n \<in> {n. allocated h n}"
    then have a: "node_id n < nodeCounter h (node_list n)" by (simp add: allocated_def)
    with inv have "node_list n < list_counter h"
      unfolding heap_inv_def by (metis not_less not_less_zero)
    with a have "(node_list n, node_id n) \<in> (SIGMA l:{..<list_counter h}. {..<nodeCounter h l})" by simp
    then show "n \<in> (\<lambda>(l, i). NFANode l i) ` (SIGMA l:{..<list_counter h}. {..<nodeCounter h l})"
      by (metis (no_types, lifting) NFANode.collapse image_iff old.prod.case)
  qed
  then show ?thesis by (rule finite_subset) simp
qed

lemma unlink_out_loop:
  assumes "distinct ks" "\<forall>k\<in>set ks. map_of (node_out h n) k \<noteq> None \<and> node_list k = this"
    "node_list n = this"
  shows "\<exists>h'. forEach ks (\<lambda>outgoing h. unlinkNodes h this n outgoing) h = Inr h'
     \<and> (\<forall>a b. map_of (node_out h' a) b = (if a = n \<and> b \<in> set ks then None else map_of (node_out h a) b))
     \<and> (\<forall>a b. map_of (node_in h' b) a = (if a = n \<and> b \<in> set ks then None else map_of (node_in h b) a))
     \<and> list_final h' = list_final h \<and> nodeCounter h' = nodeCounter h \<and> list_counter h' = list_counter h"
  using assms
proof (induction ks arbitrary: h)
  case Nil
  then show ?case by simp
next
  case (Cons k ks)
  define h2 where "h2 = h\<lparr>node_out := (node_out h)(n := AList.delete k (node_out h n)),
            node_in := (node_in h)(k := AList.delete n (node_in h k))\<rparr>"
  have u: "unlinkNodes h this n k = Inr h2"
    using Cons.prems by (simp add: unlinkNodes_Inr h2_def)
  have o: "map_of (node_out h2 a) b = (if a = n \<and> b = k then None else map_of (node_out h a) b)" for a b
    by (simp add: h2_def delete_conv')
  have i: "map_of (node_in h2 b) a = (if a = n \<and> b = k then None else map_of (node_in h b) a)" for a b
    by (simp add: h2_def delete_conv')
  have f: "list_final h2 = list_final h" "nodeCounter h2 = nodeCounter h" "list_counter h2 = list_counter h"
    by (simp_all add: h2_def)
  have pre: "\<forall>k'\<in>set ks. map_of (node_out h2 n) k' \<noteq> None \<and> node_list k' = this"
    using Cons.prems unfolding o by auto
  from Cons.IH[OF _ pre Cons.prems(3)] Cons.prems(1) obtain h' where
    r: "forEach ks (\<lambda>outgoing h. unlinkNodes h this n outgoing) h2 = Inr h'"
    and o': "\<And>a b. map_of (node_out h' a) b = (if a = n \<and> b \<in> set ks then None else map_of (node_out h2 a) b)"
    and i': "\<And>a b. map_of (node_in h' b) a = (if a = n \<and> b \<in> set ks then None else map_of (node_in h2 b) a)"
    and f': "list_final h' = list_final h2" "nodeCounter h' = nodeCounter h2" "list_counter h' = list_counter h2"
    by auto
  have "forEach (k # ks) (\<lambda>outgoing h. unlinkNodes h this n outgoing) h = Inr h'"
    using u r by simp
  moreover have "\<forall>a b. map_of (node_out h' a) b = (if a = n \<and> b \<in> set (k # ks) then None else map_of (node_out h a) b)"
    unfolding o' o by simp
  moreover have "\<forall>a b. map_of (node_in h' b) a = (if a = n \<and> b \<in> set (k # ks) then None else map_of (node_in h b) a)"
    unfolding i' i by simp
  ultimately show ?case using f f' by simp
qed

lemma unlink_in_loop:
  assumes "distinct ks" "\<forall>k\<in>set ks. map_of (node_out h k) n \<noteq> None \<and> node_list k = this"
    "node_list n = this"
  shows "\<exists>h'. forEach ks (\<lambda>incoming h. unlinkNodes h this incoming n) h = Inr h'
     \<and> (\<forall>a b. map_of (node_out h' a) b = (if b = n \<and> a \<in> set ks then None else map_of (node_out h a) b))
     \<and> (\<forall>a b. map_of (node_in h' b) a = (if b = n \<and> a \<in> set ks then None else map_of (node_in h b) a))
     \<and> list_final h' = list_final h \<and> nodeCounter h' = nodeCounter h \<and> list_counter h' = list_counter h"
  using assms
proof (induction ks arbitrary: h)
  case Nil
  then show ?case by simp
next
  case (Cons k ks)
  define h2 where "h2 = h\<lparr>node_out := (node_out h)(k := AList.delete n (node_out h k)),
            node_in := (node_in h)(n := AList.delete k (node_in h n))\<rparr>"
  have u: "unlinkNodes h this k n = Inr h2"
    using Cons.prems by (simp add: unlinkNodes_Inr h2_def)
  have o: "map_of (node_out h2 a) b = (if b = n \<and> a = k then None else map_of (node_out h a) b)" for a b
    by (simp add: h2_def delete_conv')
  have i: "map_of (node_in h2 b) a = (if b = n \<and> a = k then None else map_of (node_in h b) a)" for a b
    by (simp add: h2_def delete_conv')
  have f: "list_final h2 = list_final h" "nodeCounter h2 = nodeCounter h" "list_counter h2 = list_counter h"
    by (simp_all add: h2_def)
  have pre: "\<forall>k'\<in>set ks. map_of (node_out h2 k') n \<noteq> None \<and> node_list k' = this"
    using Cons.prems unfolding o by auto
  from Cons.IH[OF _ pre Cons.prems(3)] Cons.prems(1) obtain h' where
    r: "forEach ks (\<lambda>incoming h. unlinkNodes h this incoming n) h2 = Inr h'"
    and o': "\<And>a b. map_of (node_out h' a) b = (if b = n \<and> a \<in> set ks then None else map_of (node_out h2 a) b)"
    and i': "\<And>a b. map_of (node_in h' b) a = (if b = n \<and> a \<in> set ks then None else map_of (node_in h2 b) a)"
    and f': "list_final h' = list_final h2" "nodeCounter h' = nodeCounter h2" "list_counter h' = list_counter h2"
    by auto
  have "forEach (k # ks) (\<lambda>incoming h. unlinkNodes h this incoming n) h = Inr h'"
    using u r by simp
  moreover have "\<forall>a b. map_of (node_out h' a) b = (if b = n \<and> a \<in> set (k # ks) then None else map_of (node_out h a) b)"
    unfolding o' o by simp
  moreover have "\<forall>a b. map_of (node_in h' b) a = (if b = n \<and> a \<in> set (k # ks) then None else map_of (node_in h b) a)"
    unfolding i' i by simp
  ultimately show ?case using f f' by simp
qed

lemma map_of_keys: "map_of m k \<noteq> None \<longleftrightarrow> k \<in> set (map fst m)"
  by (simp add: map_of_eq_None_iff)

lemma removeNode_result:
  assumes inv: "heap_inv h" and l: "this < list_counter h"
    and own: "node_list node = this" and ni: "node \<noteq> list_initial this"
  shows "\<exists>h'. removeNode h this node = Inr h' \<and> heap_inv h'
     \<and> (\<forall>a b. map_of (node_out h' a) b = (if a = node \<or> b = node then None else map_of (node_out h a) b))
     \<and> list_final h' = (list_final h)(this := removeAll node (list_final h this))
     \<and> nodeCounter h' = nodeCounter h \<and> list_counter h' = list_counter h"
proof -
  define h0 where "h0 = h\<lparr>list_final := (list_final h)(this := set_delete (list_final h this) node)\<rparr>"
  have h0: "node_out h0 = node_out h" "node_in h0 = node_in h" "nodeCounter h0 = nodeCounter h"
    "list_counter h0 = list_counter h"
    "list_final h0 = (list_final h)(this := removeAll node (list_final h this))"
    by (simp_all add: h0_def set_delete_def)
  from inv have sym: "map_of (node_out h x) y = map_of (node_in h y) x" for x y
    by (simp add: heap_inv_def adj_symmetric_def)
  from inv have ow: "map_of (node_out h x) y \<noteq> None \<Longrightarrow> node_list y = node_list x" for x y
    by (simp add: heap_inv_def)
  from inv have d: "distinct (map fst (node_out h0 node))" by (simp add: heap_inv_def h0)
  have pre: "\<forall>k\<in>set (map fst (node_out h0 node)). map_of (node_out h0 node) k \<noteq> None \<and> node_list k = this"
    using ow own unfolding h0 map_of_keys by blast
  from unlink_out_loop[OF d pre own] obtain h1 where
    f1: "forEach (map fst (node_out h0 node)) (\<lambda>outgoing h. unlinkNodes h this node outgoing) h0 = Inr h1"
    and o1: "\<And>a b. map_of (node_out h1 a) b = (if a = node \<and> map_of (node_out h node) b \<noteq> None then None else map_of (node_out h a) b)"
    and i1: "\<And>a b. map_of (node_in h1 b) a = (if a = node \<and> map_of (node_out h node) b \<noteq> None then None else map_of (node_in h b) a)"
    and c1: "list_final h1 = list_final h0" "nodeCounter h1 = nodeCounter h0" "list_counter h1 = list_counter h0"
    unfolding h0 map_of_keys[symmetric] by auto
  have sa: "sub_alloc h \<lparr>initial = list_initial this, final = set_delete (list_final h this) node\<rparr>"
    using heap_inv_final[OF inv] heap_inv_initial[OF inv l] by (auto simp: sub_alloc_def)
  have p0: "pres h h0" using setFinal_pres(1)[OF pres_refl[OF inv] l sa] by (simp add: setFinal_def h0_def)
  have p1: "pres h0 h1"
    by (rule forEach_rule[OF f1, where P = "pres h0"])
       (use p0 pres_trans unlinkNodes_pres in \<open>blast intro: pres_refl dest: pres_inv\<close>)+
  then have inv1: "heap_inv h1" by (rule pres_inv)
  from inv1 have sym1: "map_of (node_out h1 x) y = map_of (node_in h1 y) x" for x y
    by (simp add: heap_inv_def adj_symmetric_def)
  from inv1 have ow1: "map_of (node_out h1 x) y \<noteq> None \<Longrightarrow> node_list y = node_list x" for x y
    by (simp add: heap_inv_def)
  from inv1 have d1: "distinct (map fst (node_in h1 node))" by (simp add: heap_inv_def)
  have pre1: "\<forall>k\<in>set (map fst (node_in h1 node)). map_of (node_out h1 k) node \<noteq> None \<and> node_list k = this"
  proof
    fix k assume "k \<in> set (map fst (node_in h1 node))"
    then have "map_of (node_in h1 node) k \<noteq> None" by (simp only: map_of_keys)
    then have "map_of (node_out h1 k) node \<noteq> None" using sym1[of k node] by simp
    with ow1[OF this] own show "map_of (node_out h1 k) node \<noteq> None \<and> node_list k = this" by simp
  qed
  from unlink_in_loop[OF d1 pre1 own] obtain h' where
    f2: "forEach (map fst (node_in h1 node)) (\<lambda>incoming h. unlinkNodes h this incoming node) h1 = Inr h'"
    and o2: "\<And>a b. map_of (node_out h' a) b = (if b = node \<and> map_of (node_in h1 node) a \<noteq> None then None else map_of (node_out h1 a) b)"
    and c2: "list_final h' = list_final h1" "nodeCounter h' = nodeCounter h1" "list_counter h' = list_counter h1"
    unfolding map_of_keys[symmetric] by auto
  have run: "removeNode h this node = Inr h'"
    unfolding removeNode_def Let_def h0_def[symmetric] using ni f1 f2 by simp
  have "map_of (node_out h' a) b = (if a = node \<or> b = node then None else map_of (node_out h a) b)" for a b
    unfolding o2 o1 i1 using sym[of a node] by auto
  with run removeNode_pres[OF inv l run] c1 c2 h0 show ?thesis
    by (auto dest: pres_inv)
qed

lemma removeNodes_result:
  assumes inv: "heap_inv h" and l: "this < list_counter h"
    and own: "\<forall>x\<in>set xs. x \<notin> set keep \<longrightarrow> node_list x = this \<and> x \<noteq> list_initial this"
  shows "\<exists>h'. forEach xs (\<lambda>node h. if node \<notin> set keep then removeNode h this node else Inr h) h = Inr h'
     \<and> heap_inv h'
     \<and> (\<forall>a b. map_of (node_out h' a) b =
           (if a \<in> set xs - set keep \<or> b \<in> set xs - set keep then None else map_of (node_out h a) b))
     \<and> list_final h' = (list_final h)(this := filter (\<lambda>f. f \<notin> set xs - set keep) (list_final h this))
     \<and> nodeCounter h' = nodeCounter h \<and> list_counter h' = list_counter h"
  using inv l own
proof (induction xs arbitrary: h)
  case Nil
  then show ?case by simp
next
  case (Cons x xs)
  from Cons.prems(3) have own': "\<forall>x\<in>set xs. x \<notin> set keep \<longrightarrow> node_list x = this \<and> x \<noteq> list_initial this"
    by simp
  show ?case
  proof (cases "x \<in> set keep")
    case True
    have e: "set (x # xs) - set keep = set xs - set keep" using True by auto
    have f: "forEach (x # xs) (\<lambda>node h. if node \<notin> set keep then removeNode h this node else Inr h) h
        = forEach xs (\<lambda>node h. if node \<notin> set keep then removeNode h this node else Inr h) h"
      using True by simp
    show ?thesis unfolding e f by (rule Cons.IH[OF Cons.prems(1,2) own'])
  next
    case False
    with Cons.prems(3) have "node_list x = this" "x \<noteq> list_initial this" by auto
    from removeNode_result[OF Cons.prems(1,2) this] obtain h2 where
      r: "removeNode h this x = Inr h2" and inv2: "heap_inv h2"
      and o2: "\<And>a b. map_of (node_out h2 a) b = (if a = x \<or> b = x then None else map_of (node_out h a) b)"
      and c2: "list_final h2 = (list_final h)(this := removeAll x (list_final h this))"
        "nodeCounter h2 = nodeCounter h" "list_counter h2 = list_counter h"
      by blast
    from Cons.prems(2) c2 have l2: "this < list_counter h2" by simp
    from Cons.IH[OF inv2 l2 own'] obtain h' where
      r': "forEach xs (\<lambda>node h. if node \<notin> set keep then removeNode h this node else Inr h) h2 = Inr h'"
      and inv': "heap_inv h'"
      and o': "\<And>a b. map_of (node_out h' a) b =
           (if a \<in> set xs - set keep \<or> b \<in> set xs - set keep then None else map_of (node_out h2 a) b)"
      and c': "list_final h' = (list_final h2)(this := filter (\<lambda>f. f \<notin> set xs - set keep) (list_final h2 this))"
        "nodeCounter h' = nodeCounter h2" "list_counter h' = list_counter h2"
      by blast
    have 1: "forEach (x # xs) (\<lambda>node h. if node \<notin> set keep then removeNode h this node else Inr h) h = Inr h'"
      using False r r' by simp
    have 2: "\<forall>a b. map_of (node_out h' a) b =
           (if a \<in> set (x # xs) - set keep \<or> b \<in> set (x # xs) - set keep then None else map_of (node_out h a) b)"
      unfolding o' o2 using False by auto
    have 3: "list_final h' = (list_final h)(this := filter (\<lambda>f. f \<notin> set (x # xs) - set keep) (list_final h this))"
      unfolding c' c2 using False by (auto simp: fun_eq_iff removeAll_filter_not_eq intro!: filter_cong)
    have 4: "nodeCounter h' = nodeCounter h" "list_counter h' = list_counter h"
      using c' c2 by simp_all
    from 1 2 3 4 inv' show ?thesis by blast
  qed
qed

definition reachable :: "heap \<Rightarrow> NFANode \<Rightarrow> NFANode \<Rightarrow> bool" where
  "reachable h a b \<longleftrightarrow> (a, b) \<in> (edges h)\<^sup>*"

lemma path_restrict_forward:
  assumes "(a, b) \<in> E\<^sup>*" and "\<And>x. (a, x) \<in> E\<^sup>* \<Longrightarrow> x \<notin> D"
  shows "(a, b) \<in> {(x, y). (x, y) \<in> E \<and> x \<notin> D \<and> y \<notin> D}\<^sup>*"
  using assms(1)
proof (induction rule: rtrancl_induct)
  case base
  then show ?case by simp
next
  case (step y z)
  from step.hyps have "(a, z) \<in> E\<^sup>*" by (auto intro: rtrancl_into_rtrancl)
  with step.hyps assms(2) have "(y, z) \<in> {(x, y). (x, y) \<in> E \<and> x \<notin> D \<and> y \<notin> D}" by simp
  with step.IH show ?case by (rule rtrancl_into_rtrancl)
qed

lemma path_restrict_backward:
  assumes "(a, b) \<in> E\<^sup>*" and "\<And>x. (x, b) \<in> E\<^sup>* \<Longrightarrow> x \<notin> D"
  shows "(a, b) \<in> {(x, y). (x, y) \<in> E \<and> x \<notin> D \<and> y \<notin> D}\<^sup>*"
  using assms(1)
proof (induction rule: converse_rtrancl_induct)
  case base
  then show ?case by simp
next
  case (step y z)
  from step.hyps have "(y, b) \<in> E\<^sup>*" by (auto intro: converse_rtrancl_into_rtrancl)
  with step.hyps assms(2) have "(y, z) \<in> {(x, y). (x, y) \<in> E \<and> x \<notin> D \<and> y \<notin> D}" by simp
  with step.IH show ?case by (auto intro: converse_rtrancl_into_rtrancl)
qed

lemma rtrancl_target:
  assumes "(a, b) \<in> {(x, y). (x, y) \<in> E \<and> P x \<and> P y}\<^sup>*" "P a"
  shows "P b"
  using assms by (induction rule: rtrancl_induct) auto

lemma makeEmpty_post:
  "list_final (makeEmpty h this) this = []"
  "node_out (makeEmpty h this) (list_initial this) = []"
  "reachable (makeEmpty h this) (list_initial this) n \<Longrightarrow> n = list_initial this"
proof -
  show "list_final (makeEmpty h this) this = []" "node_out (makeEmpty h this) (list_initial this) = []"
    by (simp_all add: makeEmpty_def)
  assume "reachable (makeEmpty h this) (list_initial this) n"
  then have "(list_initial this, n) \<in> (edges (makeEmpty h this))\<^sup>*" by (simp add: reachable_def)
  then show "n = list_initial this"
    by (induction rule: rtrancl_induct) (auto simp: edges_def makeEmpty_def)
qed

lemma edges_out: "heap_inv h \<Longrightarrow> {(x, y). y \<in> set (map fst (node_out h x))} = edges h"
  by (simp only: edges_def map_of_keys)

lemma edges_in:
  assumes "heap_inv h"
  shows "{(x, y). y \<in> set (map fst (node_in h x))} = (edges h)\<inverse>"
proof -
  from assms have sym: "map_of (node_out h x) y = map_of (node_in h y) x" for x y
    by (simp add: heap_inv_def adj_symmetric_def)
  show ?thesis unfolding edges_def map_of_keys[symmetric] sym by auto
qed

lemma edges_list:
  assumes inv: "heap_inv h" and "(a, b) \<in> (edges h)\<^sup>*"
  shows "node_list b = node_list a"
  using assms(2)
proof (induction rule: rtrancl_induct)
  case base
  then show ?case by simp
next
  case (step y z)
  from step.hyps(2) inv have "node_list z = node_list y"
    unfolding edges_def heap_inv_def by blast
  with step.IH show ?case by simp
qed

lemma removeUnreachable_total:
  assumes inv: "heap_inv h" and l: "this < list_counter h"
    and fown: "\<forall>f\<in>set (list_final h this). node_list f = this"
  shows "\<exists>h'. removeUnreachable h this = Some (Inr h')
     \<and> (if list_final h' this = []
        then node_out h' (list_initial this) = []
             \<and> (\<forall>n. reachable h' (list_initial this) n \<longrightarrow> n = list_initial this)
        else \<forall>n. reachable h' (list_initial this) n \<longrightarrow>
               (\<exists>f\<in>set (list_final h' this). reachable h' n f))"
proof (cases "list_final h this = []")
  case True
  then have "removeUnreachable h this = Some (Inr (makeEmpty h this))"
    by (simp add: removeUnreachable_def)
  then show ?thesis using makeEmpty_post by auto
next
  case False
  define init where "init = list_initial this"
  have il: "node_list init = this" by (simp add: init_def list_initial_def)
  from inv have sym: "map_of (node_out h x) y = map_of (node_in h y) x" for x y
    by (simp add: heap_inv_def adj_symmetric_def)
  from inv have ow: "map_of (node_out h x) y \<noteq> None \<Longrightarrow> node_list y = node_list x" for x y
    by (simp add: heap_inv_def)
  have fin: "finite {n. allocated h n}" by (rule finite_allocated[OF inv])
  have iU: "init \<in> {n. allocated h n}" using heap_inv_initial[OF inv l] by (simp add: init_def)
  (* step 1 *)
  define succ1 where "succ1 = (\<lambda>node. map fst (node_in h node) @ map fst (node_out h node))"
  have cl1: "set (succ1 x) \<subseteq> {n. allocated h n}" for x
    using in_edge(3)[OF inv] out_edge(4)[OF inv] by (fastforce simp: succ1_def)
  from DFS_collect[where succ = succ1 and acc = "list_final h this", OF fin iU cl1] obtain allNodes where
    r1: "DFS init (\<lambda>n acc. Inr (set_add acc n, succ1 n)) (list_final h this) = Some (Inr allNodes)"
    and s1: "set allNodes = set (list_final h this) \<union> {(x, y). y \<in> set (succ1 x)}\<^sup>* `` {init}"
    by blast
  have own1: "node_list x = this" if "x \<in> set allNodes" for x
  proof -
    have "node_list y = this" if "(init, y) \<in> {(x, y). y \<in> set (succ1 x)}\<^sup>*" for y
      using that
    proof (induction rule: rtrancl_induct)
      case base
      then show ?case by (rule il)
    next
      case (step y z)
      from step.hyps(2) have "map_of (node_in h y) z \<noteq> None \<or> map_of (node_out h y) z \<noteq> None"
        unfolding map_of_keys by (auto simp: succ1_def)
      then have "node_list z = node_list y" using ow[of y z] ow[of z y] sym[of z y] by auto
      with step.IH show ?case by simp
    qed
    with that fown show ?thesis unfolding s1 by auto
  qed
  (* step 2 *)
  have cl2: "set (map fst (node_out h x)) \<subseteq> {n. allocated h n}" for x
    using out_edge(4)[OF inv] by fastforce
  from DFS_collect[where succ = "\<lambda>x. map fst (node_out h x)" and acc = "[]", OF fin iU cl2] obtain reach where
    r2: "DFS init (\<lambda>n acc. Inr (set_add acc n, map fst (node_out h n))) [] = Some (Inr reach)"
    and s2: "set reach = (edges h)\<^sup>* `` {init}"
    unfolding edges_out[OF inv] by auto
  have ir: "init \<in> set reach" unfolding s2 by simp
  (* step 3 *)
  have pre3: "\<forall>x\<in>set allNodes. x \<notin> set reach \<longrightarrow> node_list x = this \<and> x \<noteq> list_initial this"
    using own1 ir by (auto simp: init_def)
  define D1 where "D1 = set allNodes - set reach"
  from removeNodes_result[OF inv l pre3] obtain h1 where
    f3: "forEach allNodes (\<lambda>node h. if node \<notin> set reach then removeNode h this node else Inr h) h = Inr h1"
    and inv1: "heap_inv h1"
    and o1: "\<And>a b. map_of (node_out h1 a) b = (if a \<in> D1 \<or> b \<in> D1 then None else map_of (node_out h a) b)"
    and fl1: "list_final h1 = (list_final h)(this := filter (\<lambda>f. f \<notin> D1) (list_final h this))"
    and c1: "nodeCounter h1 = nodeCounter h" "list_counter h1 = list_counter h"
    unfolding D1_def by blast
  have e1: "edges h1 = {(x, y). (x, y) \<in> edges h \<and> x \<notin> D1 \<and> y \<notin> D1}"
    unfolding edges_def o1 by auto
  have fr: "f \<in> set reach" if "f \<in> set (list_final h1 this)" for f
    using that unfolding fl1 D1_def s1 by auto
  show ?thesis
  proof (cases "list_final h1 this = []")
    case True
    have "removeUnreachable h this = Some (Inr (makeEmpty h1 this))"
      unfolding removeUnreachable_def using False r1 r2 f3 True
      by (simp add: rbind_def succ1_def init_def)
    then show ?thesis using makeEmpty_post by auto
  next
    case ne: False
    (* step 5 *)
    have fin1: "finite {n. allocated h1 n}" by (rule finite_allocated[OF inv1])
    have cl5: "set (map fst (node_in h1 x)) \<subseteq> {n. allocated h1 n}" for x
      using in_edge(3)[OF inv1] by fastforce
    have fU: "set (list_final h1 this) \<subseteq> {n. allocated h1 n}"
      using heap_inv_final[OF inv1] by auto
    have "\<forall>x\<in>set ([] :: NFANode list). set (map fst (node_in h1 x)) \<subseteq> set []" by simp
    from forEachP_collect_closed[where succ = "\<lambda>x. map fst (node_in h1 x)", OF fin1 cl5 fU this] obtain c where
      r5: "forEachP (list_final h1 this)
             (\<lambda>f c. DFS f (\<lambda>n c. if n \<in> set c then Inr (c, [])
                                  else Inr (set_add c n, map fst (node_in h1 n))) c) [] = Some (Inr c)"
      and s5: "set c = ((edges h1)\<inverse>)\<^sup>* `` set (list_final h1 this)"
      unfolding edges_in[OF inv1] by auto
    have cm: "x \<in> set c \<longleftrightarrow> (\<exists>f\<in>set (list_final h1 this). (x, f) \<in> (edges h1)\<^sup>*)" for x
      unfolding s5 rtrancl_converse by auto
    have fc: "set (list_final h1 this) \<subseteq> set c" using cm by blast
    (* the initial node reaches a final node *)
    from ne obtain f where f: "f \<in> set (list_final h1 this)" by (cases "list_final h1 this") auto
    from fr[OF f] have "(init, f) \<in> (edges h)\<^sup>*" unfolding s2 by simp
    then have "(init, f) \<in> (edges h1)\<^sup>*" unfolding e1
      by (rule path_restrict_forward) (auto simp: D1_def s2)
    with f have ic: "init \<in> set c" unfolding cm by blast
    (* step 6 *)
    from c1 l have l1: "this < list_counter h1" by simp
    have own2: "node_list x = this" if "x \<in> set reach" for x
      using that edges_list[OF inv, of init x] il unfolding s2 by simp
    have pre6: "\<forall>x\<in>set reach. x \<notin> set c \<longrightarrow> node_list x = this \<and> x \<noteq> list_initial this"
      using own2 ic by (auto simp: init_def)
    define D2 where "D2 = set reach - set c"
    from removeNodes_result[OF inv1 l1 pre6] obtain h2 where
      f6: "forEach reach (\<lambda>node h. if node \<notin> set c then removeNode h this node else Inr h) h1 = Inr h2"
      and o2: "\<And>a b. map_of (node_out h2 a) b = (if a \<in> D2 \<or> b \<in> D2 then None else map_of (node_out h1 a) b)"
      and fl2: "list_final h2 = (list_final h1)(this := filter (\<lambda>f. f \<notin> D2) (list_final h1 this))"
      unfolding D2_def by blast
    have e2: "edges h2 = {(x, y). (x, y) \<in> edges h1 \<and> x \<notin> D2 \<and> y \<notin> D2}"
      unfolding edges_def o2 by auto
    have "filter (\<lambda>f. f \<notin> D2) (list_final h1 this) = list_final h1 this"
      using fc by (auto simp: D2_def filter_id_conv)
    with fl2 have fl2': "list_final h2 this = list_final h1 this" by simp
    have run: "removeUnreachable h this = Some (Inr h2)"
      unfolding removeUnreachable_def using False r1 r2 f3 ne r5 f6
      by (simp add: rbind_def succ1_def init_def)
    have post: "\<exists>f\<in>set (list_final h2 this). reachable h2 n f" if "reachable h2 init n" for n
    proof -
      from that have p2: "(init, n) \<in> (edges h2)\<^sup>*" by (simp add: reachable_def)
      have "init \<notin> D2" using ic by (simp add: D2_def)
      from rtrancl_target[where P = "\<lambda>x. x \<notin> D2", OF p2[unfolded e2] this] have nD: "n \<notin> D2" .
      have "(edges h2)\<^sup>* \<subseteq> (edges h1)\<^sup>*" unfolding e2 by (rule rtrancl_mono) auto
      moreover have "(edges h1)\<^sup>* \<subseteq> (edges h)\<^sup>*" unfolding e1 by (rule rtrancl_mono) auto
      ultimately have "(init, n) \<in> (edges h)\<^sup>*" using p2 by blast
      then have "n \<in> set reach" unfolding s2 by simp
      with nD have "n \<in> set c" by (simp add: D2_def)
      then obtain f where f: "f \<in> set (list_final h1 this)" and p: "(n, f) \<in> (edges h1)\<^sup>*"
        unfolding cm by blast
      have "x \<notin> D2" if "(x, f) \<in> (edges h1)\<^sup>*" for x
        using that f cm[of x] by (auto simp: D2_def)
      from path_restrict_backward[OF p this] have "(n, f) \<in> (edges h2)\<^sup>*" unfolding e2 by simp
      with f show ?thesis unfolding fl2' reachable_def by blast
    qed
    from ne fl2' have "list_final h2 this \<noteq> []" by simp
    with run post show ?thesis unfolding init_def by auto
  qed
qed

text \<open>
  C6: on a store that satisfies the invariant, for a node list whose final nodes are its
  own, \<open>removeUnreachable\<close> returns normally. Afterwards every node that can be reached
  from the initial node reaches a final node, unless the final set is empty: then the
  initial node has no outgoing edge and is the only node that can be reached from it. The
  initial node is never removed: \<open>removeNode\<close> throws on it, and \<open>removeUnreachable\<close>
  does not throw.
\<close>

theorem removeUnreachable_prunes:
  assumes "heap_inv h" and "this < list_counter h"
    and "\<forall>f\<in>set (list_final h this). node_list f = this"
  shows "(\<exists>h'. removeUnreachable h this = Some (Inr h')
     \<and> (if list_final h' this = []
        then node_out h' (list_initial this) = []
             \<and> (\<forall>n. reachable h' (list_initial this) n \<longrightarrow> n = list_initial this)
        else \<forall>n. reachable h' (list_initial this) n \<longrightarrow>
               (\<exists>f\<in>set (list_final h' this). reachable h' n f)))
     \<and> (\<forall>g. removeNode g this (list_initial this) = Inl CannotRemoveInitial)"
  using removeUnreachable_total[OF assms] by (simp add: removeNode_def)

theorem removeUnreachable_prunes_witness:
  "heap_inv trie_ab \<and> 0 < list_counter trie_ab
   \<and> map node_list (list_final trie_ab 0) = [0]
   \<and> (\<exists>h'. removeUnreachable trie_ab 0 = Some (Inr h')
     \<and> (if list_final h' 0 = []
        then node_out h' (list_initial 0) = []
             \<and> (\<forall>n. reachable h' (list_initial 0) n \<longrightarrow> n = list_initial 0)
        else \<forall>n. reachable h' (list_initial 0) n \<longrightarrow>
               (\<exists>f\<in>set (list_final h' 0). reachable h' n f)))
   \<and> (\<forall>g. removeNode g 0 (list_initial 0) = Inl CannotRemoveInitial)"
proof -
  have 1: "heap_inv trie_ab" using fromWords_pres(1)[OF heap_inv_empty fromWords_ab] by (rule pres_inv)
  have 2: "0 < list_counter trie_ab" by (simp add: trie_ab_def)
  have 3: "\<forall>f\<in>set (list_final trie_ab 0). node_list f = 0" by (simp add: trie_ab_def)
  have 4: "map node_list (list_final trie_ab 0) = [0]" by (simp add: trie_ab_def)
  from removeUnreachable_prunes[OF 1 2 3] 1 2 4 show ?thesis by simp
qed

section \<open>The language of a node list\<close>

text \<open>
  A step along an edge whose label has the code point, a run for a word, and the words a
  node list accepts. With distinct keys in every \<open>out\<close> map this is what \<open>test\<close> computes.
\<close>

definition step :: "heap \<Rightarrow> NFANode \<Rightarrow> int \<Rightarrow> NFANode \<Rightarrow> bool" where
  "step h a c b \<longleftrightarrow> (\<exists>S. map_of (node_out h a) b = Some S \<and> has S c)"

fun run :: "heap \<Rightarrow> NFANode \<Rightarrow> int list \<Rightarrow> NFANode \<Rightarrow> bool" where
  "run h a [] b \<longleftrightarrow> a = b"
| "run h a (c # w) b \<longleftrightarrow> (\<exists>m. step h a c m \<and> run h m w b)"

definition accepts :: "heap \<Rightarrow> nat \<Rightarrow> int list \<Rightarrow> bool" where
  "accepts h l w \<longleftrightarrow> (\<exists>f\<in>set (list_final h l). run h (list_initial l) w f)"

definition keys_distinct :: "heap \<Rightarrow> bool" where
  "keys_distinct h \<longleftrightarrow> (\<forall>n. distinct (map fst (node_out h n)))"

lemma heap_inv_keys_distinct: "heap_inv h \<Longrightarrow> keys_distinct h"
  by (simp add: heap_inv_def keys_distinct_def)

lemma list_ex_step:
  assumes "keys_distinct h"
  shows "list_ex (\<lambda>(to, chars). to = m \<and> has chars c) (node_out h n) \<longleftrightarrow> step h n c m"
proof -
  from assms have d: "distinct (map fst (node_out h n))" by (simp add: keys_distinct_def)
  have "(\<exists>S. (m, S) \<in> set (node_out h n) \<and> has S c) \<longleftrightarrow> (\<exists>S. map_of (node_out h n) m = Some S \<and> has S c)"
    using map_of_eq_Some_iff[OF d] by simp
  then show ?thesis unfolding step_def list_ex_iff by auto
qed

lemma is_path_run:
  assumes "keys_distinct h"
  shows "(\<exists>ns. is_path h n w ns \<and> last (n # ns) = b) \<longleftrightarrow> run h n w b"
proof (induction w arbitrary: n)
  case Nil
  have "is_path h n [] ns \<longleftrightarrow> ns = []" for ns by (cases ns) auto
  then show ?case by auto
next
  case (Cons c w)
  have "(\<exists>ns. is_path h n (c # w) ns \<and> last (n # ns) = b)
      \<longleftrightarrow> (\<exists>m ns. is_path h n (c # w) (m # ns) \<and> last (m # ns) = b)"
  proof
    assume "\<exists>ns. is_path h n (c # w) ns \<and> last (n # ns) = b"
    then obtain ns where p: "is_path h n (c # w) ns" "last (n # ns) = b" by blast
    then obtain m ms where ns: "ns = m # ms" by (cases ns) auto
    from p(1) have 1: "is_path h n (c # w) (m # ms)" unfolding ns .
    from p(2) have 2: "last (m # ms) = b" unfolding ns by simp
    from 1 2 show "\<exists>m ns. is_path h n (c # w) (m # ns) \<and> last (m # ns) = b" by blast
  next
    assume "\<exists>m ns. is_path h n (c # w) (m # ns) \<and> last (m # ns) = b"
    then obtain m ms where 1: "is_path h n (c # w) (m # ms)" and 2: "last (m # ms) = b" by blast
    from 2 have "last (n # m # ms) = b" by simp
    with 1 have "is_path h n (c # w) (m # ms) \<and> last (n # m # ms) = b" by blast
    then show "\<exists>ns. is_path h n (c # w) ns \<and> last (n # ns) = b" by blast
  qed
  also have "\<dots> \<longleftrightarrow> (\<exists>m. step h n c m \<and> (\<exists>ns. is_path h m w ns \<and> last (m # ns) = b))"
    by (simp only: is_path.simps list_ex_step[OF assms]) blast
  also have "\<dots> \<longleftrightarrow> run h n (c # w) b" by (simp only: Cons.IH run.simps)
  finally show ?case .
qed

lemma test_accepts:
  assumes "keys_distinct h"
  shows "test h nfa w \<longleftrightarrow> accepts h (nodes nfa) w"
proof -
  have "test h nfa w \<longleftrightarrow> (\<exists>ns. is_path h (list_initial (nodes nfa)) w ns \<and>
            last (list_initial (nodes nfa) # ns) \<in> set (list_final h (nodes nfa)))"
    using match_path[of h "nodes nfa" w 0 "list_initial (nodes nfa)"] by (simp add: test_def)
  also have "\<dots> \<longleftrightarrow> (\<exists>f\<in>set (list_final h (nodes nfa)). \<exists>ns. is_path h (list_initial (nodes nfa)) w ns \<and>
            last (list_initial (nodes nfa) # ns) = f)" by blast
  also have "\<dots> \<longleftrightarrow> accepts h (nodes nfa) w"
    unfolding is_path_run[OF assms] accepts_def ..
  finally show ?thesis .
qed

lemma run_append: "run h a (u @ v) b \<longleftrightarrow> (\<exists>m. run h a u m \<and> run h m v b)"
  by (induction u arbitrary: a) auto

lemma step_edges: "step h a c b \<Longrightarrow> (a, b) \<in> edges h"
  by (auto simp: step_def edges_def)

lemma run_edges: "run h a w b \<Longrightarrow> (a, b) \<in> (edges h)\<^sup>*"
proof (induction w arbitrary: a)
  case Nil
  then show ?case by simp
next
  case (Cons c w)
  then obtain m where "step h a c m" "run h m w b" by auto
  with Cons.IH[of m] show ?case by (meson converse_rtrancl_into_rtrancl step_edges)
qed

lemma run_mono:
  assumes "\<And>a c b. P a \<Longrightarrow> step h a c b \<Longrightarrow> step h' a c b \<and> P b"
  shows "P a \<Longrightarrow> run h a w b \<Longrightarrow> run h' a w b"
proof (induction w arbitrary: a)
  case Nil
  then show ?case by simp
next
  case (Cons c w)
  from Cons.prems obtain m where m: "step h a c m" "run h m w b" by auto
  from assms[OF Cons.prems(1) m(1)] Cons.IH[of m] m(2) show ?case by auto
qed

lemma forEach_total:
  assumes "I s"
    and "\<And>x s. x \<in> set xs \<Longrightarrow> I s \<Longrightarrow> \<exists>s'. f x s = Inr s' \<and> I s' \<and> le s s' \<and> Q x s'"
    and "\<And>x s s'. Q x s \<Longrightarrow> le s s' \<Longrightarrow> Q x s'"
    and "\<And>s. le s s" and "\<And>s t u. le s t \<Longrightarrow> le t u \<Longrightarrow> le s u"
  shows "\<exists>s'. forEach xs f s = Inr s' \<and> I s' \<and> le s s' \<and> (\<forall>x\<in>set xs. Q x s')"
  using assms(1,2)
proof (induction xs arbitrary: s)
  case Nil
  then show ?case using assms(4) by simp
next
  case (Cons x xs)
  from Cons.prems(2)[of x s] Cons.prems(1) obtain s1 where
    s1: "f x s = Inr s1" "I s1" "le s s1" "Q x s1" by auto
  have "\<exists>s'. forEach xs f s1 = Inr s' \<and> I s' \<and> le s1 s' \<and> (\<forall>x\<in>set xs. Q x s')"
    by (rule Cons.IH[OF s1(2)]) (use Cons.prems(2) in auto)
  then obtain s' where s': "forEach xs f s1 = Inr s'" "I s'" "le s1 s'" "\<forall>x\<in>set xs. Q x s'" by blast
  have "Q x s'" using assms(3)[OF s1(4) s'(3)] .
  moreover have "le s s'" using assms(5)[OF s1(3) s'(3)] .
  ultimately show ?case using s1(1) s' by simp
qed

section \<open>Reusing final states\<close>


definition merge_label :: "CharSet option \<Rightarrow> CharSet option \<Rightarrow> CharSet option" where
  "merge_label x y =
     (case y of None \<Rightarrow> x | Some S \<Rightarrow> Some (case x of None \<Rightarrow> S | Some L \<Rightarrow> union_set L S))"

lemma merge_label_None [simp]: "merge_label x None = x"
  by (simp add: merge_label_def)














section \<open>The failures of fromWords\<close>











end
